theory Spec2Isabelle
  imports Complex_Main "HOL-Library.Multiset"
begin

section \<open>Strings\<close>

text \<open>
  A JavaScript string is a sequence of UTF-16 code units. A code unit is modelled as a
  natural number (below 65536 for every string the program can hold), so that equality,
  \<open>includes\<close>, \<open>trim\<close> and the regular expressions of the source, which all work
  code unit by code unit, are modelled exactly, also on text outside ASCII such as the
  emoji of the taxonomy. \<open>js\<close> turns an ASCII literal into such a string.
\<close>

type_synonym jsstring = "nat list"

definition js :: "string \<Rightarrow> jsstring" where
  "js s = map of_char s"

fun startsWith :: "jsstring \<Rightarrow> jsstring \<Rightarrow> bool" where
  "startsWith s [] = True"
| "startsWith [] (p # ps) = False"
| "startsWith (c # cs) (p # ps) = (c = p \<and> startsWith cs ps)"

text \<open>\<open>String.prototype.includes\<close>: does \<open>sub\<close> occur in \<open>s\<close> as a contiguous run?\<close>

fun str_includes :: "jsstring \<Rightarrow> jsstring \<Rightarrow> bool" where
  "str_includes [] sub = (sub = [])"
| "str_includes (c # cs) sub = (startsWith (c # cs) sub \<or> str_includes cs sub)"

text \<open>
  White space and line terminators of ECMAScript, the code units that
  \<open>String.prototype.trim\<close> strips.
\<close>

definition isWhiteSpace :: "nat \<Rightarrow> bool" where
  "isWhiteSpace c \<longleftrightarrow>
     c \<in> {0x9, 0xA, 0xB, 0xC, 0xD, 0x20, 0xA0, 0x1680, 0x2028, 0x2029, 0x202F, 0x205F,
          0x3000, 0xFEFF} \<or> (0x2000 \<le> c \<and> c \<le> 0x200A)"

definition trim :: "jsstring \<Rightarrow> jsstring" where
  "trim s = rev (dropWhile isWhiteSpace (rev (dropWhile isWhiteSpace s)))"

section \<open>Data model (types.ts)\<close>

text \<open>
  The interfaces of the source, field by field. An optional field (\<open>failed?\<close>,
  \<open>error?\<close>) and a nullable one are options; a \<open>number\<close> that counts is a natural
  number, and the confidence, a \<open>number\<close> that is only stored and handed on, is a real.
\<close>

record GitHubRepo =
  full_name :: jsstring
  node_id :: jsstring
  description :: "jsstring option"
  language :: "jsstring option"
  topics :: "jsstring list"
  html_url :: jsstring

record CategorizationResult =
  category :: jsstring
  confidence :: real
  reasoning :: jsstring

record AnalysisResult =
  repo :: GitHubRepo
  categorization :: CategorizationResult
  webSearchCalls :: nat
  cached :: bool
  timestamp :: jsstring
  failed :: "bool option"
  error :: "jsstring option"

record CategoryConfig =
  name :: jsstring
  emoji :: jsstring
  description :: jsstring

section \<open>The taxonomy (config.ts)\<close>

definition CATEGORIES :: "CategoryConfig list" where
  "CATEGORIES = [
   \<lparr>name = js ''AI & LLM'', emoji = [0xD83E, 0xDD16],
     description = js ''AI/LLM libraries (LangChain, LlamaIndex), vector databases, RAG frameworks, AI model APIs. NOT workflow engines that support AI agents - those are Backend.''\<rparr>,
   \<lparr>name = js ''UI & Design Systems'', emoji = [0xD83C, 0xDFA8],
     description = js ''Component libraries, design systems, Tailwind, Shadcn, animations''\<rparr>,
   \<lparr>name = js ''Frontend Frameworks'', emoji = [0x269B, 0xFE0F],
     description = js ''React, Next.js, Vue, Remix, Svelte, Deno Fresh''\<rparr>,
   \<lparr>name = js ''Testing & QA'', emoji = [0xD83E, 0xDDEA],
     description = js ''Cypress, Playwright, test frameworks, E2E tools''\<rparr>,
   \<lparr>name = js ''Backend & Runtimes'', emoji = [0xD83D, 0xDE80],
     description = js ''Runtimes (Node, Deno, Bun), API frameworks, workflow/orchestration engines (Temporal, Inngest, Vercel Workflow), backend services, job queues.''\<rparr>,
   \<lparr>name = js ''DevOps & Containers'', emoji = [0xD83D, 0xDC33],
     description = js ''Docker, Kubernetes, containers, infrastructure, deployment''\<rparr>,
   \<lparr>name = js ''CLI & Terminal'', emoji = [0xD83D, 0xDCBB],
     description = js ''Command-line tools, shell utilities, terminal emulators, prompts''\<rparr>,
   \<lparr>name = js ''Code Quality'', emoji = [0x2728],
     description = js ''Linters, formatters, static analysis, Prettier, ESLint, Biome''\<rparr>,
   \<lparr>name = js ''Dev Tooling'', emoji = [0xD83D, 0xDEE0, 0xFE0F],
     description = js ''Build/bundle tools (Webpack, Vite, Turbo), package managers (pnpm), monorepo tools. NOT analytics, monitoring, or product tools.''\<rparr>,
   \<lparr>name = js ''Web Scraping & APIs'', emoji = [0xD83C, 0xDF10],
     description = js ''Web scrapers, HTTP clients, API tools, data extraction''\<rparr>,
   \<lparr>name = js ''Editors & IDEs'', emoji = [0xD83D, 0xDCDD],
     description = js ''Code editors, IDEs, VSCode extensions, editor tools''\<rparr>,
   \<lparr>name = js ''Media & Download'', emoji = [0xD83D, 0xDCF9],
     description = js ''Video downloaders, media tools, streaming tools''\<rparr>,
   \<lparr>name = js ''Trading & Finance'', emoji = [0xD83D, 0xDCC8],
     description = js ''Trading bots, backtesting, technical analysis, finance tools''\<rparr>,
   \<lparr>name = js ''Logging & Debug'', emoji = [0xD83D, 0xDD0D],
     description = js ''Logging, debugging, network tools, monitoring, observability, product analytics (PostHog, Sentry, Mixpanel), APM, session recording.''\<rparr>,
   \<lparr>name = js ''Databases & Auth'', emoji = [0xD83D, 0xDD10],
     description = js ''Databases (Postgres, MongoDB, Neon, Prisma), ORMs, authentication libraries (NextAuth, Better Auth), session management''\<rparr>,
   \<lparr>name = js ''Learning Resources'', emoji = [0xD83D, 0xDCDA],
     description = js ''Awesome lists, tutorials, courses (30-Days-Of-*, You-Dont-Know-JS), algorithm collections, cheatsheets, educational repos''\<rparr>,
   \<lparr>name = js ''Utilities & Libraries'', emoji = [0xD83E, 0xDDF0],
     description = js ''General-purpose utilities (Ramda, Lodash), data structures, type libraries (type-fest), converters (turndown), diagram tools (Mermaid)''\<rparr>,
   \<lparr>name = js ''Other Tools'', emoji = [0xD83D, 0xDCE6],
     description = js ''Security tools, browsers, system utilities, misc tools that don'' @ [39] @ js ''t fit other categories''\<rparr>]"

definition CATEGORY_NAMES :: "jsstring list" where
  "CATEGORY_NAMES = map name CATEGORIES"

section \<open>Result cache: key derivation (cache.service.ts)\<close>

text \<open>
  \<open>name.replace(/\//g, "-").replace(/[^a-zA-Z0-9-]/g, "_")\<close>: two passes, each over
  every code unit.
\<close>

definition isSlugSafe :: "nat \<Rightarrow> bool" where
  "isSlugSafe c \<longleftrightarrow>
     (of_char CHR ''a'' \<le> c \<and> c \<le> of_char CHR ''z'') \<or>
     (of_char CHR ''A'' \<le> c \<and> c \<le> of_char CHR ''Z'') \<or>
     (of_char CHR ''0'' \<le> c \<and> c \<le> of_char CHR ''9'') \<or>
     c = of_char CHR ''-''"

definition slugify :: "jsstring \<Rightarrow> jsstring" where
  "slugify nm =
     map (\<lambda>c. if isSlugSafe c then c else of_char CHR ''_'')
       (map (\<lambda>c. if c = of_char CHR ''/'' then of_char CHR ''-'' else c) nm)"

text \<open>The identities on which the derivation loses nothing: letters, digits and \<open>/\<close>.\<close>

definition isAlnumOrSlash :: "nat \<Rightarrow> bool" where
  "isAlnumOrSlash c \<longleftrightarrow> (isSlugSafe c \<and> c \<noteq> of_char CHR ''-'') \<or> c = of_char CHR ''/''"

section \<open>Errors (lib/errors.ts)\<close>

text \<open>
  A thrown JavaScript value, as far as the program looks at it. \<open>GeminiAPIError\<close> is the
  class of the source, with its message, status code, retryable flag and cause. Any
  other \<open>Error\<close> instance (a plain \<open>Error\<close>, a \<open>SyntaxError\<close> of \<open>JSON.parse\<close>, the
  \<open>CacheError\<close> of the file utilities, an SDK error) is \<open>ErrorInstance\<close>; a thrown value
  that is no \<open>Error\<close> is \<open>NonError\<close>. Both carry the properties \<open>isRetryableError\<close>
  reads: \<open>message\<close>, \<open>status\<close>, \<open>error.code\<close>, \<open>error.status\<close>, and \<open>String(error)\<close>.
  The type has no value for a thrown \<open>null\<close> or \<open>undefined\<close>: reading a property of
  these throws a \<open>TypeError\<close>, so \<open>isRetryableError\<close> and \<open>extractErrorCode\<close> below are
  the functions of the source on every other thrown value.
\<close>

datatype js_error =
    GeminiAPIError jsstring "nat option" bool "js_error option"
  | ErrorInstance jsstring "nat option" "nat option" "jsstring option" jsstring
  | NonError "jsstring option" "nat option" "nat option" "jsstring option" jsstring

text \<open>\<open>apiError.status || apiError.error?.code\<close>: a status of 0 is falsy.\<close>

definition statusOrCode :: "nat option \<Rightarrow> nat option \<Rightarrow> nat option" where
  "statusOrCode status code =
     (case status of Some s \<Rightarrow> if s \<noteq> 0 then Some s else code | None \<Rightarrow> code)"

definition retryableSignature :: "nat option \<Rightarrow> jsstring option \<Rightarrow> jsstring \<Rightarrow> bool" where
  "retryableSignature errorCode errorStatus errorMessage \<longleftrightarrow>
     errorCode = Some 429 \<or>
     errorCode = Some 503 \<or>
     errorStatus = Some (js ''UNAVAILABLE'') \<or>
     str_includes errorMessage (js ''503'') \<or>
     str_includes errorMessage (js ''overloaded'') \<or>
     str_includes errorMessage (js ''UNAVAILABLE'')"

fun isRetryableError :: "js_error \<Rightarrow> bool" where
  "isRetryableError (GeminiAPIError msg statusCode retryable cause) = retryable"
| "isRetryableError (ErrorInstance msg status code errorStatus str) =
     retryableSignature (statusOrCode status code) errorStatus (if msg \<noteq> [] then msg else str)"
| "isRetryableError (NonError msg status code errorStatus str) =
     retryableSignature (statusOrCode status code) errorStatus
       (case msg of Some m \<Rightarrow> if m \<noteq> [] then m else str | None \<Rightarrow> str)"

fun getErrorMessage :: "js_error \<Rightarrow> jsstring" where
  "getErrorMessage (GeminiAPIError msg statusCode retryable cause) = msg"
| "getErrorMessage (ErrorInstance msg status code errorStatus str) = msg"
| "getErrorMessage (NonError msg status code errorStatus str) = str"

section \<open>Configuration (lib/config.ts)\<close>

record EnvConfig =
  GEMINI_API_KEY :: jsstring
  CACHE_MAX_AGE_HOURS :: nat
  CATEGORIZER_CONCURRENCY :: nat
  GEMINI_MODEL :: jsstring
  RETRY_DELAY_MS :: nat
  RETRY_MAX_ATTEMPTS :: nat

section \<open>Classifier client (gemini.service.ts)\<close>

text \<open>
  The value of the \<open>category\<close> property of the parsed reply, which the code inspects
  dynamically: absent, \<open>null\<close>, a boolean, a number, a string, or an object or array.
\<close>

datatype jsval = JUndefined | JNull | JBool bool | JNumber real | JString jsstring | JObject

fun truthy :: "jsval \<Rightarrow> bool" where
  "truthy JUndefined = False"
| "truthy JNull = False"
| "truthy (JBool b) = b"
| "truthy (JNumber n) = (n \<noteq> 0)"
| "truthy (JString s) = (s \<noteq> [])"
| "truthy JObject = True"

fun typeofString :: "jsval \<Rightarrow> bool" where
  "typeofString (JString s) = True"
| "typeofString v = False"

fun stringOf :: "jsval \<Rightarrow> jsstring" where
  "stringOf (JString s) = s"
| "stringOf v = []"

text \<open>
  What \<open>JSON.parse\<close> returns for an object text: the source declares it a
  \<open>CategorizationResult\<close> and checks the category only, so the category is kept as a
  dynamic value and the other two fields have their declared types.
\<close>

record ParsedReply =
  categoryField :: jsval
  confidenceField :: real
  reasoningField :: jsstring

text \<open>
  \<open>text.match(/\{[\s\S]*\}/)\<close>: the leftmost \<open>{\<close>, then as much as possible up to a
  \<open>}\<close>, that is, up to the last \<open>}\<close> of the text.
\<close>

definition matchJson :: "jsstring \<Rightarrow> jsstring option" where
  "matchJson text =
     (case dropWhile (\<lambda>c. c \<noteq> of_char CHR ''{'') text of
        [] \<Rightarrow> None
      | b # rest \<Rightarrow>
          (case dropWhile (\<lambda>c. c \<noteq> of_char CHR ''}'') (rev rest) of
             [] \<Rightarrow> None
           | r # body \<Rightarrow> Some (b # rev body @ [r])))"

definition categoryMatches :: "jsstring \<Rightarrow> CategoryConfig \<Rightarrow> bool" where
  "categoryMatches categoryName cat \<longleftrightarrow>
     name cat = categoryName \<or>
     emoji cat @ js '' '' @ name cat = categoryName \<or>
     str_includes categoryName (name cat)"

text \<open>
  \<open>parseResponse\<close>, with \<open>JSON.parse\<close> as a parameter: \<open>Inl\<close> is the \<open>SyntaxError\<close> it
  throws, which \<open>parseResponse\<close> lets through.
\<close>

definition parseResponse ::
  "(jsstring \<Rightarrow> js_error + ParsedReply) \<Rightarrow> jsstring \<Rightarrow> js_error + CategorizationResult" where
  "parseResponse JSON_parse text =
     (case matchJson text of
        None \<Rightarrow> Inl (GeminiAPIError (js ''No JSON found in response'') None True None)
      | Some jsonMatch \<Rightarrow>
          (case JSON_parse jsonMatch of
             Inl syntaxError \<Rightarrow> Inl syntaxError
           | Inr parsed \<Rightarrow>
               if \<not> truthy (categoryField parsed) \<or>
                  \<not> typeofString (categoryField parsed) \<or>
                  trim (stringOf (categoryField parsed)) = []
               then Inl (GeminiAPIError (js ''Empty or invalid category in response'')
                           (Some 503) True None)
               else
                 let categoryName = trim (stringOf (categoryField parsed)) in
                 (case find (categoryMatches categoryName) CATEGORIES of
                    Some matchedCategory \<Rightarrow>
                      Inr \<lparr>category = name matchedCategory,
                           confidence = confidenceField parsed,
                           reasoning = reasoningField parsed\<rparr>
                  | None \<Rightarrow>
                      Inr \<lparr>category = js ''Other Tools'',
                           confidence = confidenceField parsed,
                           reasoning = js ''Original: '' @ categoryName
                                        @ js ''. Fallback to Other Tools.''\<rparr>)))"

text \<open>What the endpoint returns, as far as \<open>categorize\<close> reads it.\<close>

record GenerateContentResponse =
  responseText :: "jsstring option"
  groundingChunksLength :: "nat option"
  totalTokenCount :: "nat option"

record GeminiResponse =
  categorization :: CategorizationResult
  groundingChunks :: nat
  tokensUsed :: nat

fun extractErrorCode :: "js_error \<Rightarrow> nat option" where
  "extractErrorCode (GeminiAPIError msg statusCode retryable cause) = None"
| "extractErrorCode (ErrorInstance msg status code errorStatus str) = statusOrCode status code"
| "extractErrorCode (NonError msg status code errorStatus str) = statusOrCode status code"

text \<open>
  One attempt, the function handed to \<open>pRetry\<close>: the endpoint's outcome is given (it
  is the external call), the reply is parsed, and whatever is thrown on the way is
  wrapped into a \<open>GeminiAPIError\<close> whose flag is \<open>isRetryableError\<close> of the original.
  The analytics capture changes nothing the program reads and is left out.
\<close>

definition attemptBody ::
  "(jsstring \<Rightarrow> js_error + ParsedReply) \<Rightarrow> js_error + GenerateContentResponse
     \<Rightarrow> js_error + GeminiResponse" where
  "attemptBody JSON_parse outcome =
     (case outcome of
        Inl err \<Rightarrow> Inl err
      | Inr result \<Rightarrow>
          (case parseResponse JSON_parse
                  (case responseText result of Some t \<Rightarrow> if t \<noteq> [] then t else js ''{}''
                                     | None \<Rightarrow> js ''{}'') of
             Inl err \<Rightarrow> Inl err
           | Inr c \<Rightarrow>
               Inr \<lparr>GeminiResponse.categorization = c,
                    groundingChunks = (case groundingChunksLength result of Some n \<Rightarrow> n | None \<Rightarrow> 0),
                    tokensUsed = (case totalTokenCount result of Some n \<Rightarrow> n | None \<Rightarrow> 0)\<rparr>))"

definition attempt ::
  "(jsstring \<Rightarrow> js_error + ParsedReply) \<Rightarrow> js_error + GenerateContentResponse
     \<Rightarrow> js_error + GeminiResponse" where
  "attempt JSON_parse outcome =
     (case attemptBody JSON_parse outcome of
        Inl err \<Rightarrow>
          Inl (GeminiAPIError (js ''Gemini API error: '' @ getErrorMessage err)
                 (extractErrorCode err) (isRetryableError err) (Some err))
      | Inr response \<Rightarrow> Inr response)"

text \<open>
  The \<open>onFailedAttempt\<close> hook: \<open>Some\<close> is the error it throws to stop the retries.
  It looks for the text \<open>GeminiAPIError\<close> in the message of the error.
\<close>

definition onFailedAttempt :: "js_error \<Rightarrow> js_error option" where
  "onFailedAttempt err =
     (if str_includes (getErrorMessage err) (js ''GeminiAPIError'') \<and> \<not> isRetryableError err
      then Some err else None)"

text \<open>
  The retry library (p-retry 6, not part of the repository). It keeps the errors of the
  failed attempts, and when the retries are used up it rejects with \<open>mainError\<close>: the
  error whose message occurred most often among them, the later one on a tie.
\<close>

fun mainErrorFrom :: "js_error list \<Rightarrow> js_error list \<Rightarrow> js_error \<Rightarrow> nat \<Rightarrow> js_error" where
  "mainErrorFrom seen [] main mainErrorCount = main"
| "mainErrorFrom seen (err # rest) main mainErrorCount =
     (let count = length (filter (\<lambda>e. getErrorMessage e = getErrorMessage err) seen) + 1 in
      if mainErrorCount \<le> count then mainErrorFrom (seen @ [err]) rest err count
      else mainErrorFrom (seen @ [err]) rest main mainErrorCount)"

text \<open>
  The input runs; when it fails the hook is called with the error, and an error thrown
  by the hook ends the retries and is the result; otherwise the input runs again while
  retries are left, and the main error of all attempts is the result when none is. With
  \<open>retries = n\<close> the input runs at most \<open>n + 1\<close> times. \<open>errors\<close> holds the errors of
  the earlier attempts. The delays between attempts are not modelled. The library
  rejects at once on a thrown value that is no \<open>Error\<close> and on a \<open>TypeError\<close>; the input
  of this program, \<open>attempt\<close>, fails with a \<open>GeminiAPIError\<close> only, so these branches are
  not reached. The first component of the result is the number of attempts made.
\<close>

fun pRetry ::
  "(nat \<Rightarrow> js_error + 'a) \<Rightarrow> (js_error \<Rightarrow> js_error option) \<Rightarrow> js_error list \<Rightarrow> nat \<Rightarrow> nat
     \<Rightarrow> nat \<times> (js_error + 'a)" where
  "pRetry input hook errors attemptNumber 0 =
     (case input attemptNumber of
        Inr v \<Rightarrow> (attemptNumber, Inr v)
      | Inl err \<Rightarrow>
          (case hook err of
             Some thrown \<Rightarrow> (attemptNumber, Inl thrown)
           | None \<Rightarrow> (attemptNumber, Inl (mainErrorFrom [] (errors @ [err]) err 0))))"
| "pRetry input hook errors attemptNumber (Suc retriesLeft) =
     (case input attemptNumber of
        Inr v \<Rightarrow> (attemptNumber, Inr v)
      | Inl err \<Rightarrow>
          (case hook err of
             Some thrown \<Rightarrow> (attemptNumber, Inl thrown)
           | None \<Rightarrow> pRetry input hook (errors @ [err]) (Suc attemptNumber) retriesLeft))"

text \<open>
  \<open>categorize\<close>: \<open>generateContent k\<close> is the outcome of the endpoint at the \<open>k\<close>-th
  attempt. The result is the number of attempts made and the response or the error.
\<close>

definition categorize ::
  "EnvConfig \<Rightarrow> (jsstring \<Rightarrow> js_error + ParsedReply)
     \<Rightarrow> (nat \<Rightarrow> js_error + GenerateContentResponse) \<Rightarrow> nat \<times> (js_error + GeminiResponse)" where
  "categorize cfg JSON_parse generateContent =
     pRetry (\<lambda>k. attempt JSON_parse (generateContent k)) onFailedAttempt [] 1
       (RETRY_MAX_ATTEMPTS cfg)"

definition defaultConfig :: EnvConfig where
  "defaultConfig = \<lparr>GEMINI_API_KEY = js ''key'', CACHE_MAX_AGE_HOURS = 360,
     CATEGORIZER_CONCURRENCY = 40, GEMINI_MODEL = js ''gemini-2.5-flash'',
     RETRY_DELAY_MS = 1000, RETRY_MAX_ATTEMPTS = 5\<rparr>"

section \<open>Result cache: storage (cache.service.ts, lib/fs-utils.ts)\<close>

text \<open>
  The analysis directory of the file system. A path holds no file, or a file that is
  \<^item> \<open>Unreadable\<close>: \<open>readJSON\<close> cannot read or parse it;
  \<^item> \<open>Stored result\<close>: the JSON text of an analysis record (which \<open>JSON.stringify\<close> and
    \<open>JSON.parse\<close> carry unchanged, so the record itself is kept);
  \<^item> \<open>NoCategorization\<close>: JSON text that parses to a value without a \<open>categorization\<close>
    property, such as \<open>null\<close>, \<open>{}\<close>, a number or an array.
  The source reads a file under the declared type \<open>AnalysisResult\<close> and does not check
  its shape. A file whose value has a \<open>categorization\<close> but lacks or mistypes another
  property of a record is outside this model.
\<close>

datatype cache_file = Unreadable | Stored AnalysisResult | NoCategorization

text \<open>
  What \<open>getAnalysis\<close> returns when it does not return \<open>null\<close>: the object
  \<open>{ ...result, cached: true }\<close>. Of a stored record it is the record with the cache flag
  set; of a value without \<open>categorization\<close> it is an object that has the cache flag and
  no \<open>categorization\<close>. Both are truthy.
\<close>

datatype cached_value = CachedRecord AnalysisResult | CachedOther

type_synonym file_system = "jsstring \<Rightarrow> cache_file option"

definition getAnalysisPath :: "jsstring \<Rightarrow> jsstring" where
  "getAnalysisPath repoName = js ''cache/analysis/'' @ slugify repoName @ js ''.json''"

definition getAnalysis :: "file_system \<Rightarrow> jsstring \<Rightarrow> cached_value option" where
  "getAnalysis fs repoName =
     (case fs (getAnalysisPath repoName) of
        None \<Rightarrow> None
      | Some Unreadable \<Rightarrow> None
      | Some (Stored result) \<Rightarrow> Some (CachedRecord (result\<lparr>AnalysisResult.cached := True\<rparr>))
      | Some NoCategorization \<Rightarrow> Some CachedOther)"

definition hasAnalysis :: "file_system \<Rightarrow> jsstring \<Rightarrow> bool" where
  "hasAnalysis fs repoName \<longleftrightarrow> fs (getAnalysisPath repoName) \<noteq> None"

text \<open>
  \<open>saveAnalysis\<close>: \<open>writeJSON\<close> throws a \<open>CacheError\<close> when the directory cannot be made
  or the file cannot be written; whether it can is the file system's matter and is given
  by \<open>writeFails\<close>.
\<close>

definition cacheWriteError :: "jsstring \<Rightarrow> js_error" where
  "cacheWriteError path =
     ErrorInstance (js ''Failed to write JSON file: '' @ path) None None None
       (js ''CacheError: Failed to write JSON file: '' @ path)"

definition saveAnalysis :: "bool \<Rightarrow> file_system \<Rightarrow> AnalysisResult \<Rightarrow> js_error + file_system" where
  "saveAnalysis writeFails fs result =
     (let path = getAnalysisPath (full_name (AnalysisResult.repo result)) in
      if writeFails then Inl (cacheWriteError path)
      else Inr (fs(path \<mapsto> Stored result)))"

section \<open>Analysis pipeline (analyzer.service.ts)\<close>

record AnalyzerStats =
  total :: nat
  analyzed :: nat
  cached :: nat
  failed :: nat
  totalTokens :: nat
  totalWebSearches :: nat

record AnalyzerProgress =
  current :: nat
  total :: nat
  repo :: jsstring
  cached :: bool
  category :: "jsstring option"
  confidence :: "real option"
  elapsedMs :: "nat option"
  tokensUsed :: "nat option"

definition initialStats :: AnalyzerStats where
  "initialStats = \<lparr>AnalyzerStats.total = 0, analyzed = 0, cached = 0, failed = 0,
     totalTokens = 0, totalWebSearches = 0\<rparr>"

text \<open>
  What the pipeline's collaborators do for the task of the \<open>i\<close>-th item: the outcome of
  \<open>gemini.categorize\<close> (the service is handed to the constructor), whether the cache
  write fails, the clock reading of \<open>new Date().toISOString()\<close>, and the elapsed time.
\<close>

record Env =
  categorizeOutcome :: "nat \<Rightarrow> js_error + GeminiResponse"
  writeFails :: "nat \<Rightarrow> bool"
  isoTime :: "nat \<Rightarrow> jsstring"
  elapsed :: "nat \<Rightarrow> nat"

text \<open>
  \<open>analyzeAll\<close> starts one task per item; the queue runs them concurrently. A task runs
  without interruption from one \<open>await\<close> to the next, so it is a sequence of atomic
  segments, and a run of \<open>analyzeAll\<close> is an interleaving of the segments of its tasks.
  The state of a task says which \<open>await\<close> it is suspended at:
  \<^item> \<open>Queued\<close>: in the queue, not started;
  \<^item> \<open>AwaitCache\<close>: waiting for \<open>cache.getAnalysis\<close>;
  \<^item> \<open>AwaitGemini\<close>: waiting for \<open>gemini.categorize\<close>;
  \<^item> \<open>AwaitSave result tokens\<close>: waiting for \<open>cache.saveAnalysis(result)\<close>;
  \<^item> \<open>Resolved result\<close>: the queued function has returned, \<open>results.push\<close> is pending;
  \<^item> \<open>Finished result\<close>: the task is over, its record is in \<open>results\<close>.
\<close>

datatype task =
    Queued
  | AwaitCache
  | AwaitGemini
  | AwaitSave AnalysisResult nat
  | Resolved AnalysisResult
  | Finished AnalysisResult

text \<open>
  The state of a run: the fields of the service (\<open>stats\<close>, and the files of the
  cache), the locals of \<open>analyzeAll\<close> (\<open>completed\<close>, \<open>results\<close>), the tasks, and two
  logs: the calls of the progress callback and the items for which \<open>gemini.categorize\<close>
  was called, both in the order of the calls. The run is one with a progress callback,
  as both callers of \<open>analyzeAll\<close> in the source pass one. The callback is the caller's;
  it is taken to return normally, and \<open>onProgress\<close> records the argument of each call.
\<close>

record AnalyzerState =
  stats :: AnalyzerStats
  files :: file_system
  completed :: nat
  results :: "AnalysisResult list"
  progressLog :: "AnalyzerProgress list"
  geminiCalls :: "nat list"
  tasks :: "task list"

definition onProgress :: "AnalyzerProgress \<Rightarrow> AnalyzerState \<Rightarrow> AnalyzerState" where
  "onProgress p st = st\<lparr>progressLog := progressLog st @ [p]\<rparr>"

definition callGemini :: "nat \<Rightarrow> AnalyzerState \<Rightarrow> AnalyzerState" where
  "callGemini i st = st\<lparr>geminiCalls := geminiCalls st @ [i], tasks := (tasks st)[i := AwaitGemini]\<rparr>"

text \<open>The record of a fresh classification: lines 105 to 111.\<close>

definition freshRecord :: "Env \<Rightarrow> nat \<Rightarrow> GitHubRepo \<Rightarrow> GeminiResponse \<Rightarrow> AnalysisResult" where
  "freshRecord env i r response =
     \<lparr>AnalysisResult.repo = r,
      categorization = GeminiResponse.categorization response,
      webSearchCalls = groundingChunks response,
      cached = False,
      timestamp = isoTime env i,
      failed = None,
      error = None\<rparr>"

text \<open>After \<open>gemini.categorize\<close> has returned: lines 98 to 114.\<close>

definition classified :: "Env \<Rightarrow> nat \<Rightarrow> GitHubRepo \<Rightarrow> GeminiResponse \<Rightarrow> AnalyzerState \<Rightarrow> AnalyzerState" where
  "classified env i r response st =
     (let st1 = st\<lparr>stats := (stats st)\<lparr>analyzed := analyzed (stats st) + 1\<rparr>\<rparr>;
          st2 = st1\<lparr>stats := (stats st1)\<lparr>totalTokens :=
                    totalTokens (stats st1) + GeminiResponse.tokensUsed response\<rparr>\<rparr>;
          st3 = st2\<lparr>stats := (stats st2)\<lparr>totalWebSearches :=
                    totalWebSearches (stats st2) + groundingChunks response\<rparr>\<rparr>;
          result = freshRecord env i r response
      in st3\<lparr>tasks := (tasks st3)[i := AwaitSave result (GeminiResponse.tokensUsed response)]\<rparr>)"

text \<open>After \<open>cache.saveAnalysis\<close> has returned: lines 116 to 130.\<close>

definition saved :: "Env \<Rightarrow> nat \<Rightarrow> GitHubRepo \<Rightarrow> AnalysisResult \<Rightarrow> nat \<Rightarrow> AnalyzerState \<Rightarrow> AnalyzerState" where
  "saved env i r result tokens st =
     (let st1 = st\<lparr>completed := completed st + 1\<rparr>;
          st2 = onProgress
                  \<lparr>current = completed st1,
                   AnalyzerProgress.total = AnalyzerStats.total (stats st1),
                   AnalyzerProgress.repo = full_name r,
                   AnalyzerProgress.cached = False,
                   AnalyzerProgress.category =
                     Some (CategorizationResult.category (AnalysisResult.categorization result)),
                   AnalyzerProgress.confidence =
                     Some (CategorizationResult.confidence (AnalysisResult.categorization result)),
                   elapsedMs = Some (elapsed env i),
                   AnalyzerProgress.tokensUsed = Some tokens\<rparr> st1
      in st2\<lparr>tasks := (tasks st2)[i := Resolved result]\<rparr>)"

text \<open>The degraded record of a failed item: lines 143 to 155.\<close>

definition degradedRecord :: "Env \<Rightarrow> nat \<Rightarrow> GitHubRepo \<Rightarrow> jsstring \<Rightarrow> AnalysisResult" where
  "degradedRecord env i r errorMsg =
     \<lparr>AnalysisResult.repo = r,
      categorization = \<lparr>CategorizationResult.category = js ''Uncategorized'',
                        CategorizationResult.confidence = 0,
                        reasoning = js ''Analysis failed: '' @ errorMsg\<rparr>,
      webSearchCalls = 0,
      cached = False,
      timestamp = isoTime env i,
      failed = Some True,
      error = Some errorMsg\<rparr>"

text \<open>The \<open>catch\<close> block: lines 131 to 156.\<close>

definition catchBlock :: "Env \<Rightarrow> nat \<Rightarrow> GitHubRepo \<Rightarrow> js_error \<Rightarrow> AnalyzerState \<Rightarrow> AnalyzerState" where
  "catchBlock env i r err st =
     (let st1 = st\<lparr>stats := (stats st)\<lparr>AnalyzerStats.failed := AnalyzerStats.failed (stats st) + 1\<rparr>\<rparr>;
          errorMsg = getErrorMessage err;
          st2 = st1\<lparr>completed := completed st1 + 1\<rparr>;
          st3 = onProgress
                  \<lparr>current = completed st2,
                   AnalyzerProgress.total = AnalyzerStats.total (stats st2),
                   AnalyzerProgress.repo = full_name r,
                   AnalyzerProgress.cached = False,
                   AnalyzerProgress.category = None,
                   AnalyzerProgress.confidence = None,
                   elapsedMs = None,
                   AnalyzerProgress.tokensUsed = None\<rparr> st2
      in st3\<lparr>tasks := (tasks st3)[i := Resolved (degradedRecord env i r errorMsg)]\<rparr>)"

text \<open>
  The cache hit: lines 82 to 93. The two counters are incremented, then the argument of
  the callback is built. It reads \<open>cached.categorization.category\<close>, which throws a
  \<open>TypeError\<close> when the cached value has no \<open>categorization\<close>; the statement is inside
  the \<open>try\<close>, so the \<open>catch\<close> block runs next, on the counters already incremented.
\<close>

definition categoryTypeError :: js_error where
  "categoryTypeError =
     ErrorInstance (js ''Cannot read properties of undefined (reading 'category')'')
       None None None
       (js ''TypeError: Cannot read properties of undefined (reading 'category')'')"

definition cacheHit :: "Env \<Rightarrow> nat \<Rightarrow> GitHubRepo \<Rightarrow> cached_value \<Rightarrow> AnalyzerState \<Rightarrow> AnalyzerState" where
  "cacheHit env i r cachedValue st =
     (let st1 = st\<lparr>stats := (stats st)\<lparr>AnalyzerStats.cached := AnalyzerStats.cached (stats st) + 1\<rparr>\<rparr>;
          st2 = st1\<lparr>completed := completed st1 + 1\<rparr>
      in case cachedValue of
           CachedRecord cachedResult \<Rightarrow>
             (let st3 = onProgress
                          \<lparr>current = completed st2,
                           AnalyzerProgress.total = AnalyzerStats.total (stats st2),
                           AnalyzerProgress.repo = full_name r,
                           AnalyzerProgress.cached = True,
                           AnalyzerProgress.category =
                             Some (CategorizationResult.category (AnalysisResult.categorization cachedResult)),
                           AnalyzerProgress.confidence =
                             Some (CategorizationResult.confidence (AnalysisResult.categorization cachedResult)),
                           elapsedMs = None,
                           AnalyzerProgress.tokensUsed = None\<rparr> st2
              in st3\<lparr>tasks := (tasks st3)[i := Resolved cachedResult]\<rparr>)
         | CachedOther \<Rightarrow> catchBlock env i r categoryTypeError st2)"

text \<open>
  One atomic segment of task \<open>i\<close>: the task goes on from the \<open>await\<close> it is suspended
  at, up to its next \<open>await\<close> (or its end). The file is read when \<open>getAnalysis\<close>
  returns and written when \<open>saveAnalysis\<close> returns. A finished task, and an index that
  is no task, leave the state as it is.
\<close>

definition step :: "Env \<Rightarrow> bool \<Rightarrow> GitHubRepo list \<Rightarrow> AnalyzerState \<Rightarrow> nat \<Rightarrow> AnalyzerState" where
  "step env skipCache repos st i =
     (if length repos \<le> i \<or> length (tasks st) \<le> i then st
      else
        (case tasks st ! i of
           Queued \<Rightarrow>
             if \<not> skipCache then st\<lparr>tasks := (tasks st)[i := AwaitCache]\<rparr>
             else callGemini i st
         | AwaitCache \<Rightarrow>
             (case getAnalysis (files st) (full_name (repos ! i)) of
                Some cachedValue \<Rightarrow> cacheHit env i (repos ! i) cachedValue st
              | None \<Rightarrow> callGemini i st)
         | AwaitGemini \<Rightarrow>
             (case categorizeOutcome env i of
                Inr response \<Rightarrow> classified env i (repos ! i) response st
              | Inl err \<Rightarrow> catchBlock env i (repos ! i) err st)
         | AwaitSave result tokens \<Rightarrow>
             (case saveAnalysis (writeFails env i) (files st) result of
                Inr fs \<Rightarrow> saved env i (repos ! i) result tokens (st\<lparr>files := fs\<rparr>)
              | Inl err \<Rightarrow> catchBlock env i (repos ! i) err st)
         | Resolved result \<Rightarrow>
             st\<lparr>results := results st @ [result], tasks := (tasks st)[i := Finished result]\<rparr>
         | Finished result \<Rightarrow> st))"

text \<open>
  \<open>analyzeAll\<close>: the statements before the tasks start (\<open>stats.total\<close> is overwritten,
  the other counters are kept), then the segments in the order of a schedule, a list
  of task indices. The queue starts at most \<open>CATEGORIZER_CONCURRENCY\<close> tasks at a
  time, which only rules schedules out, so a property of all schedules holds under every
  concurrency limit. The promise of \<open>analyzeAll\<close> resolves, with \<open>results\<close>, once every
  task is finished.
\<close>

definition startAnalyzeAll :: "GitHubRepo list \<Rightarrow> AnalyzerStats \<Rightarrow> file_system \<Rightarrow> AnalyzerState" where
  "startAnalyzeAll repos s fs =
     \<lparr>stats = s\<lparr>AnalyzerStats.total := length repos\<rparr>,
      files = fs,
      completed = 0,
      results = [],
      progressLog = [],
      geminiCalls = [],
      tasks = replicate (length repos) Queued\<rparr>"

definition analyzeAll ::
  "Env \<Rightarrow> GitHubRepo list \<Rightarrow> bool \<Rightarrow> nat list \<Rightarrow> AnalyzerStats \<Rightarrow> file_system \<Rightarrow> AnalyzerState" where
  "analyzeAll env repos skipCache schedule s fs =
     foldl (step env skipCache repos) (startAnalyzeAll repos s fs) schedule"

text \<open>The tasks whose queued function has returned.\<close>

fun isSettled :: "task \<Rightarrow> bool" where
  "isSettled (Resolved result) = True"
| "isSettled (Finished result) = True"
| "isSettled t = False"

text \<open>The tasks past the classifier: waiting for the cache write, or settled.\<close>

fun isCounted :: "task \<Rightarrow> bool" where
  "isCounted (AwaitSave result tokens) = True"
| "isCounted t = isSettled t"

fun isFinished :: "task \<Rightarrow> bool" where
  "isFinished (Finished result) = True"
| "isFinished t = False"

text \<open>The number of segments a task still has to run, at most.\<close>

fun stepsLeft :: "task \<Rightarrow> nat" where
  "stepsLeft Queued = 5"
| "stepsLeft AwaitCache = 4"
| "stepsLeft AwaitGemini = 3"
| "stepsLeft (AwaitSave result tokens) = 2"
| "stepsLeft (Resolved result) = 1"
| "stepsLeft (Finished result) = 0"

definition allFinished :: "AnalyzerState \<Rightarrow> bool" where
  "allFinished st \<longleftrightarrow> list_all isFinished (tasks st)"

definition getStats :: "AnalyzerState \<Rightarrow> AnalyzerStats" where
  "getStats st = stats st"

definition resetStats :: "AnalyzerState \<Rightarrow> AnalyzerState" where
  "resetStats st = st\<lparr>stats := initialStats\<rparr>"

text \<open>A cache whose parseable files are records: no file is without \<open>categorization\<close>.\<close>

definition wellFormed :: "file_system \<Rightarrow> bool" where
  "wellFormed fs \<longleftrightarrow> (\<forall>p. fs p \<noteq> Some NoCategorization)"

text \<open>
  The invariant of the progress events of a run on such a cache: the callback has seen
  the values 1 to \<open>completed\<close>, in this order, \<open>completed\<close> counts the settled tasks, and
  the callback has been called once for each settled task, with the name of its item.
\<close>

definition settledNames :: "GitHubRepo list \<Rightarrow> task list \<Rightarrow> jsstring multiset" where
  "settledNames repos ts =
     image_mset (\<lambda>i. full_name (repos ! i)) (mset_set {i. i < length ts \<and> isSettled (ts ! i)})"

definition progressInv :: "GitHubRepo list \<Rightarrow> AnalyzerState \<Rightarrow> bool" where
  "progressInv repos st \<longleftrightarrow>
     wellFormed (files st) \<and>
     map current (progressLog st) = [1 ..< Suc (completed st)] \<and>
     completed st = length (filter isSettled (tasks st)) \<and>
     mset (map AnalyzerProgress.repo (progressLog st)) = settledNames repos (tasks st)"

text \<open>The sum the statistics are meant to keep equal to \<open>total\<close>.\<close>

definition outcomes :: "AnalyzerStats \<Rightarrow> nat" where
  "outcomes s = analyzed s + AnalyzerStats.cached s + AnalyzerStats.failed s"

text \<open>
  The invariant of the statistics, from the statistics \<open>s\<close> the run started with:
  \<open>total\<close> is the size of the batch, no counter has gone down, and the three outcome
  counters have grown by at least the number of tasks past the classifier.
\<close>

definition statsInv :: "GitHubRepo list \<Rightarrow> AnalyzerStats \<Rightarrow> AnalyzerState \<Rightarrow> bool" where
  "statsInv repos s st \<longleftrightarrow>
     AnalyzerStats.total (stats st) = length repos \<and>
     outcomes s + length (filter isCounted (tasks st)) \<le> outcomes (stats st) \<and>
     analyzed s \<le> analyzed (stats st) \<and>
     AnalyzerStats.cached s \<le> AnalyzerStats.cached (stats st) \<and>
     AnalyzerStats.failed s \<le> AnalyzerStats.failed (stats st) \<and>
     totalTokens s \<le> totalTokens (stats st) \<and>
     totalWebSearches s \<le> totalWebSearches (stats st)"

text \<open>
  The same with equality, for runs in which no cache write fails, on a cache whose
  parseable files are records.
\<close>

definition statsExact :: "AnalyzerStats \<Rightarrow> AnalyzerState \<Rightarrow> bool" where
  "statsExact s st \<longleftrightarrow>
     wellFormed (files st) \<and>
     outcomes (stats st) = outcomes s + length (filter isCounted (tasks st))"

text \<open>
  The pipeline on the real classifier client: the outcome of the \<open>i\<close>-th task's
  \<open>categorize\<close> comes from the endpoint's replies to that task.
\<close>

definition geminiEnv ::
  "EnvConfig \<Rightarrow> (jsstring \<Rightarrow> js_error + ParsedReply)
     \<Rightarrow> (nat \<Rightarrow> nat \<Rightarrow> js_error + GenerateContentResponse)
     \<Rightarrow> (nat \<Rightarrow> bool) \<Rightarrow> (nat \<Rightarrow> jsstring) \<Rightarrow> (nat \<Rightarrow> nat) \<Rightarrow> Env" where
  "geminiEnv cfg JSON_parse generateContent failing clock el =
     \<lparr>categorizeOutcome = (\<lambda>i. snd (categorize cfg JSON_parse (generateContent i))),
      writeFails = failing, isoTime = clock, elapsed = el\<rparr>"

section \<open>Where the records of a run come from\<close>

text \<open>
  The record of a task is one of three: the fresh record of its own successful
  classification, the degraded record of its own failure, or a cache hit: a record
  stored under the item's key, with the cache flag set. A stored record was in the cache
  before the run, or is the fresh record of a task of this run with the same key whose
  cache write did not fail. The failure of a task is that of the classifier, that of the
  cache write after a successful classification, or that of the cache hit on a file
  without \<open>categorization\<close>, which was in the cache before the run.
\<close>

definition isFresh :: "Env \<Rightarrow> GitHubRepo list \<Rightarrow> nat \<Rightarrow> AnalysisResult \<Rightarrow> bool" where
  "isFresh env repos i r \<longleftrightarrow>
     (case categorizeOutcome env i of
        Inr response \<Rightarrow> r = freshRecord env i (repos ! i) response
      | Inl err \<Rightarrow> False)"

definition isFailedClassification :: "Env \<Rightarrow> GitHubRepo list \<Rightarrow> nat \<Rightarrow> AnalysisResult \<Rightarrow> bool" where
  "isFailedClassification env repos i r \<longleftrightarrow>
     (case categorizeOutcome env i of
        Inl err \<Rightarrow> r = degradedRecord env i (repos ! i) (getErrorMessage err)
      | Inr response \<Rightarrow>
          writeFails env i \<and>
          r = degradedRecord env i (repos ! i)
                (getErrorMessage (cacheWriteError (getAnalysisPath (full_name (repos ! i))))))"

definition isFailedHit :: "Env \<Rightarrow> GitHubRepo list \<Rightarrow> file_system \<Rightarrow> nat \<Rightarrow> AnalysisResult \<Rightarrow> bool" where
  "isFailedHit env repos fs0 i r \<longleftrightarrow>
     fs0 (getAnalysisPath (full_name (repos ! i))) = Some NoCategorization \<and>
     r = degradedRecord env i (repos ! i) (getErrorMessage categoryTypeError)"

definition isDegraded :: "Env \<Rightarrow> GitHubRepo list \<Rightarrow> file_system \<Rightarrow> nat \<Rightarrow> AnalysisResult \<Rightarrow> bool" where
  "isDegraded env repos fs0 i r \<longleftrightarrow>
     isFailedClassification env repos i r \<or> isFailedHit env repos fs0 i r"

definition isHit :: "Env \<Rightarrow> GitHubRepo list \<Rightarrow> file_system \<Rightarrow> nat \<Rightarrow> AnalysisResult \<Rightarrow> bool" where
  "isHit env repos fs0 i r \<longleftrightarrow>
     (\<exists>r0. r = r0\<lparr>AnalysisResult.cached := True\<rparr> \<and>
        (fs0 (getAnalysisPath (full_name (repos ! i))) = Some (Stored r0) \<or>
         (\<exists>j < length repos.
            getAnalysisPath (full_name (repos ! j)) = getAnalysisPath (full_name (repos ! i)) \<and>
            isFresh env repos j r0 \<and> \<not> writeFails env j)))"

fun taskProvenance :: "Env \<Rightarrow> GitHubRepo list \<Rightarrow> file_system \<Rightarrow> nat \<Rightarrow> task \<Rightarrow> bool" where
  "taskProvenance env repos fs0 i (AwaitSave r tokens) = isFresh env repos i r"
| "taskProvenance env repos fs0 i (Resolved r) =
     (isFresh env repos i r \<or> isDegraded env repos fs0 i r \<or> isHit env repos fs0 i r)"
| "taskProvenance env repos fs0 i (Finished r) =
     (isFresh env repos i r \<or> isDegraded env repos fs0 i r \<or> isHit env repos fs0 i r)"
| "taskProvenance env repos fs0 i t = True"

definition tasksSatisfy :: "(nat \<Rightarrow> task \<Rightarrow> bool) \<Rightarrow> task list \<Rightarrow> bool" where
  "tasksSatisfy Q ts \<longleftrightarrow> (\<forall>i < length ts. Q i (ts ! i))"

text \<open>
  A file of the cache is as it was before the run, or holds the fresh record of a task
  of the run whose cache write did not fail.
\<close>

definition filesProvenance :: "Env \<Rightarrow> GitHubRepo list \<Rightarrow> file_system \<Rightarrow> file_system \<Rightarrow> bool" where
  "filesProvenance env repos fs0 fs \<longleftrightarrow>
     (\<forall>p. fs p = fs0 p \<or>
        (\<exists>j < length repos. p = getAnalysisPath (full_name (repos ! j)) \<and>
           (\<exists>r. fs p = Some (Stored r) \<and> isFresh env repos j r \<and> \<not> writeFails env j)))"

definition provenanceInv :: "Env \<Rightarrow> GitHubRepo list \<Rightarrow> file_system \<Rightarrow> AnalyzerState \<Rightarrow> bool" where
  "provenanceInv env repos fs0 st \<longleftrightarrow>
     length (tasks st) = length repos \<and>
     tasksSatisfy (taskProvenance env repos fs0) (tasks st) \<and>
     filesProvenance env repos fs0 (files st)"

text \<open>The records in \<open>results\<close> are the records of the finished tasks.\<close>

definition resultsInv :: "AnalyzerState \<Rightarrow> bool" where
  "resultsInv st \<longleftrightarrow>
     (\<forall>r \<in> set (results st). \<exists>i < length (tasks st). tasks st ! i = Finished r) \<and>
     (\<forall>i < length (tasks st). \<forall>r. tasks st ! i = Finished r \<longrightarrow> r \<in> set (results st)) \<and>
     length (results st) = length (filter isFinished (tasks st))"

text \<open>
  The states of a task for which the classifier was called: it waits for the
  classifier or for the cache write, or it has settled with its fresh record or with the
  degraded record of its failed classification.
\<close>

fun wasClassified :: "Env \<Rightarrow> GitHubRepo list \<Rightarrow> nat \<Rightarrow> task \<Rightarrow> bool" where
  "wasClassified env repos i Queued = False"
| "wasClassified env repos i AwaitCache = False"
| "wasClassified env repos i AwaitGemini = True"
| "wasClassified env repos i (AwaitSave r tokens) = True"
| "wasClassified env repos i (Resolved r) =
     (isFresh env repos i r \<or> isFailedClassification env repos i r)"
| "wasClassified env repos i (Finished r) =
     (isFresh env repos i r \<or> isFailedClassification env repos i r)"

fun hasFailed :: "task \<Rightarrow> bool" where
  "hasFailed (Resolved r) = (AnalysisResult.failed r = Some True \<and> \<not> AnalysisResult.cached r)"
| "hasFailed (Finished r) = (AnalysisResult.failed r = Some True \<and> \<not> AnalysisResult.cached r)"
| "hasFailed t = False"

definition callsInv :: "Env \<Rightarrow> GitHubRepo list \<Rightarrow> AnalyzerStats \<Rightarrow> AnalyzerState \<Rightarrow> bool" where
  "callsInv env repos s st \<longleftrightarrow>
     (\<forall>i \<in> set (geminiCalls st). i < length (tasks st) \<and> wasClassified env repos i (tasks st ! i)) \<and>
     (\<forall>i < length (tasks st). \<forall>r tokens. tasks st ! i = AwaitSave r tokens \<longrightarrow> isFresh env repos i r) \<and>
     AnalyzerStats.failed (stats st) = AnalyzerStats.failed s + length (filter hasFailed (tasks st))"

text \<open>
  With the cache in use: a readable entry that was there before the run stays as it is,
  and the task of an item with such an entry never calls the classifier.
\<close>

fun taskServedFromCache :: "GitHubRepo list \<Rightarrow> file_system \<Rightarrow> nat \<Rightarrow> task \<Rightarrow> bool" where
  "taskServedFromCache repos fs0 i t =
     (case fs0 (getAnalysisPath (full_name (repos ! i))) of
        Some (Stored r0) \<Rightarrow>
          t = Queued \<or> t = AwaitCache \<or>
          t = Resolved (r0\<lparr>AnalysisResult.cached := True\<rparr>) \<or>
          t = Finished (r0\<lparr>AnalysisResult.cached := True\<rparr>)
      | _ \<Rightarrow> (case t of AwaitSave r tokens \<Rightarrow> AnalysisResult.repo r = repos ! i | _ \<Rightarrow> True))"

definition cacheInv :: "GitHubRepo list \<Rightarrow> file_system \<Rightarrow> AnalyzerState \<Rightarrow> bool" where
  "cacheInv repos fs0 st \<longleftrightarrow>
     length (tasks st) = length repos \<and>
     tasksSatisfy (taskServedFromCache repos fs0) (tasks st) \<and>
     (\<forall>p r0. fs0 p = Some (Stored r0) \<longrightarrow> files st p = Some (Stored r0)) \<and>
     (\<forall>j \<in> set (geminiCalls st). j < length repos \<and>
        (\<forall>r0. fs0 (getAnalysisPath (full_name (repos ! j))) \<noteq> Some (Stored r0)))"

text \<open>
  A later run with the cache in use, from the files \<open>fs1\<close> an earlier run left: as long as
  the classifier has not been called for item \<open>k\<close>, the file \<open>p\<close> of its key is as the
  earlier run left it and the task of the item has not read the cache yet.
\<close>

definition reattemptInv :: "file_system \<Rightarrow> jsstring \<Rightarrow> nat \<Rightarrow> AnalyzerState \<Rightarrow> bool" where
  "reattemptInv fs1 p k st \<longleftrightarrow>
     k \<in> set (geminiCalls st) \<or>
     (files st p = fs1 p \<and> (tasks st ! k = Queued \<or> tasks st ! k = AwaitCache))"

section \<open>The specification's reading of the reply extraction\<close>

text \<open>The reading of the specification: the first substring with balanced braces.\<close>

fun balancedPrefix :: "nat \<Rightarrow> jsstring \<Rightarrow> jsstring option" where
  "balancedPrefix depth [] = None"
| "balancedPrefix depth (c # cs) =
     (if c = of_char CHR ''}'' then
        (if depth \<le> 1 then Some [c] else map_option ((#) c) (balancedPrefix (depth - 1) cs))
      else if c = of_char CHR ''{'' then map_option ((#) c) (balancedPrefix (depth + 1) cs)
      else map_option ((#) c) (balancedPrefix depth cs))"

fun spec_firstBalancedObject :: "jsstring \<Rightarrow> jsstring option" where
  "spec_firstBalancedObject [] = None"
| "spec_firstBalancedObject (c # cs) =
     (if c = of_char CHR ''{'' then
        (case balancedPrefix 1 cs of
           Some p \<Rightarrow> Some (c # p)
         | None \<Rightarrow> spec_firstBalancedObject cs)
      else spec_firstBalancedObject cs)"

section \<open>Concrete inputs\<close>

text \<open>Stand-ins for \<open>JSON.parse\<close> on the replies used in the examples.\<close>

definition parseQuantum :: "jsstring \<Rightarrow> js_error + ParsedReply" where
  "parseQuantum jsonText =
     Inr \<lparr>categoryField = JString (js ''Quantum Cryptography''), confidenceField = 70,
          reasoningField = js ''Too exotic''\<rparr>"

definition emojiFrontend :: jsstring where
  "emojiFrontend = [0x269B, 0xFE0F] @ js '' Frontend Frameworks ''"

definition emojiFrontendTrimmed :: jsstring where
  "emojiFrontendTrimmed = [0x269B, 0xFE0F] @ js '' Frontend Frameworks''"

definition parseFrontend :: "jsstring \<Rightarrow> js_error + ParsedReply" where
  "parseFrontend jsonText =
     Inr \<lparr>categoryField = JString emojiFrontend,
          confidenceField = 95, reasoningField = js ''x''\<rparr>"

definition parseBlank :: "jsstring \<Rightarrow> js_error + ParsedReply" where
  "parseBlank jsonText =
     Inr \<lparr>categoryField = JString (js ''  ''), confidenceField = 95, reasoningField = js ''x''\<rparr>"

text \<open>A permanent failure of the endpoint, and what one attempt makes of it.\<close>

definition invalidRequest :: js_error where
  "invalidRequest = ErrorInstance (js ''invalid request'') None None None (js ''Error: invalid request'')"

definition wrappedInvalidRequest :: js_error where
  "wrappedInvalidRequest =
     GeminiAPIError (js ''Gemini API error: invalid request'') None False (Some invalidRequest)"

text \<open>An item, a reply of the classifier, and collaborators for the examples.\<close>

definition repoA :: GitHubRepo where
  "repoA = \<lparr>full_name = js ''a/b'', node_id = js ''n1'', GitHubRepo.description = None,
     language = None, topics = [], html_url = js ''https://github.com/a/b''\<rparr>"

definition okResponse :: GeminiResponse where
  "okResponse =
     \<lparr>GeminiResponse.categorization =
        \<lparr>CategorizationResult.category = js ''Frontend Frameworks'',
         CategorizationResult.confidence = 95, reasoning = js ''x''\<rparr>,
      groundingChunks = 1, tokensUsed = 100\<rparr>"

definition clock :: "nat \<Rightarrow> jsstring" where
  "clock i = js ''2025-01-01T00:00:00.000Z''"

text \<open>The classifier succeeds and the cache cannot be written.\<close>

definition envWriteFails :: Env where
  "envWriteFails = \<lparr>categorizeOutcome = (\<lambda>i. Inr okResponse), writeFails = (\<lambda>i. True),
     isoTime = clock, elapsed = (\<lambda>i. 5)\<rparr>"

text \<open>The classifier succeeds and the cache is written.\<close>

definition envOk :: Env where
  "envOk = \<lparr>categorizeOutcome = (\<lambda>i. Inr okResponse), writeFails = (\<lambda>i. False),
     isoTime = clock, elapsed = (\<lambda>i. 5)\<rparr>"

text \<open>The classifier fails with a permanent error.\<close>

definition envFails :: Env where
  "envFails = \<lparr>categorizeOutcome = (\<lambda>i. Inl wrappedInvalidRequest), writeFails = (\<lambda>i. False),
     isoTime = clock, elapsed = (\<lambda>i. 5)\<rparr>"

text \<open>Two calls on one service, the second starting from what the first left.\<close>

definition firstRun :: AnalyzerState where
  "firstRun = analyzeAll envOk [repoA] False [0, 0, 0, 0, 0] initialStats Map.empty"

definition secondRun :: AnalyzerState where
  "secondRun = analyzeAll envOk [repoA] False [0, 0, 0, 0, 0] (stats firstRun) (files firstRun)"

text \<open>One item, classified, whose cache write fails.\<close>

definition writeFailureRun :: AnalyzerState where
  "writeFailureRun =
     analyzeAll envWriteFails [repoA] False [0, 0, 0, 0, 0] initialStats Map.empty"

text \<open>One item whose classification fails, on an empty cache.\<close>

definition failingRun :: AnalyzerState where
  "failingRun = analyzeAll envFails [repoA] False [0, 0, 0, 0, 0] initialStats Map.empty"

text \<open>The same item again, on what the failed run left, with a classifier that succeeds.\<close>

definition failingRerun :: AnalyzerState where
  "failingRerun =
     analyzeAll envOk [repoA] False [0, 0, 0, 0, 0] (stats failingRun) (files failingRun)"

text \<open>
  Two items whose names differ and whose keys are the same, \<open>a-b-c\<close>. The classifier
  fails for the first and succeeds for the second. The first run starts on an empty
  cache; the second run takes the same batch, on what the first left.
\<close>

definition repoC1 :: GitHubRepo where
  "repoC1 = \<lparr>full_name = js ''a-b/c'', node_id = js ''n2'', GitHubRepo.description = None,
     language = None, topics = [], html_url = js ''https://github.com/a-b/c''\<rparr>"

definition repoC2 :: GitHubRepo where
  "repoC2 = \<lparr>full_name = js ''a/b-c'', node_id = js ''n3'', GitHubRepo.description = None,
     language = None, topics = [], html_url = js ''https://github.com/a/b-c''\<rparr>"

definition envFirstFails :: Env where
  "envFirstFails =
     \<lparr>categorizeOutcome = (\<lambda>i. if i = 0 then Inl wrappedInvalidRequest else Inr okResponse),
      writeFails = (\<lambda>i. False), isoTime = clock, elapsed = (\<lambda>i. 5)\<rparr>"

definition collidingRun :: AnalyzerState where
  "collidingRun =
     analyzeAll envFirstFails [repoC1, repoC2] False [0, 0, 0, 0, 0, 1, 1, 1, 1, 1]
       initialStats Map.empty"

definition collidingRerun :: AnalyzerState where
  "collidingRerun =
     analyzeAll envFirstFails [repoC1, repoC2] False [0, 0, 0, 0, 0, 1, 1, 1, 1, 1]
       (stats collidingRun) (files collidingRun)"

text \<open>
  A cache that holds a record for the item, stored with the cache flag off, and a run
  on it with a classifier that would fail.
\<close>

definition storedA :: AnalysisResult where
  "storedA =
     \<lparr>AnalysisResult.repo = repoA,
      categorization = \<lparr>CategorizationResult.category = js ''CLI & Terminal'',
                        CategorizationResult.confidence = 85, reasoning = js ''Cached''\<rparr>,
      webSearchCalls = 0, cached = False, timestamp = js ''2024-12-31T00:00:00.000Z'',
      failed = None, error = None\<rparr>"

definition cacheWithA :: file_system where
  "cacheWithA = Map.empty(getAnalysisPath (js ''a/b'') \<mapsto> Stored storedA)"

definition cachedRun :: AnalyzerState where
  "cachedRun = analyzeAll envFails [repoA] False [0, 0, 0, 0, 0] initialStats cacheWithA"

text \<open>
  A cache whose file for the item holds the JSON text \<open>null\<close>, and a run on it.
\<close>

definition cacheWithNull :: file_system where
  "cacheWithNull = Map.empty(getAnalysisPath (js ''a/b'') \<mapsto> NoCategorization)"

definition nullEntryRun :: AnalyzerState where
  "nullEntryRun = analyzeAll envOk [repoA] False [0, 0, 0, 0, 0] initialStats cacheWithNull"

text \<open>The pipeline on the real client: an endpoint that always fails, and one that replies.\<close>

definition endpointDown :: "nat \<Rightarrow> nat \<Rightarrow> js_error + GenerateContentResponse" where
  "endpointDown i k = Inl invalidRequest"

definition endpointUp :: "nat \<Rightarrow> nat \<Rightarrow> js_error + GenerateContentResponse" where
  "endpointUp i k =
     Inr \<lparr>responseText = Some (js ''{}''), groundingChunksLength = None,
          totalTokenCount = Some 10\<rparr>"

definition noWriteFailure :: "nat \<Rightarrow> bool" where
  "noWriteFailure i = False"

definition fiveMs :: "nat \<Rightarrow> nat" where
  "fiveMs i = 5"

definition geminiDownRun :: AnalyzerState where
  "geminiDownRun =
     analyzeAll (geminiEnv defaultConfig parseBlank endpointDown noWriteFailure clock fiveMs)
       [repoA] False [0, 0, 0, 0, 0] initialStats Map.empty"

definition geminiUpRun :: AnalyzerState where
  "geminiUpRun =
     analyzeAll (geminiEnv defaultConfig parseFrontend endpointUp noWriteFailure clock fiveMs)
       [repoA] False [0, 0, 0, 0, 0] initialStats Map.empty"

section \<open>Properties of the key derivation\<close>

lemma slug_unit_inj:
  assumes "isAlnumOrSlash c" "isAlnumOrSlash d"
    and "(if isSlugSafe (if c = of_char CHR ''/'' then of_char CHR ''-'' else c)
          then (if c = of_char CHR ''/'' then of_char CHR ''-'' else c) else of_char CHR ''_'')
       = (if isSlugSafe (if d = of_char CHR ''/'' then of_char CHR ''-'' else d)
          then (if d = of_char CHR ''/'' then of_char CHR ''-'' else d) else of_char CHR ''_'')"
  shows "c = d"
  using assms apply (simp add: isAlnumOrSlash_def isSlugSafe_def split: if_splits)
  by presburger

lemma slugify_Cons: "slugify (c # cs) =
   (if isSlugSafe (if c = of_char CHR ''/'' then of_char CHR ''-'' else c)
          then (if c = of_char CHR ''/'' then of_char CHR ''-'' else c) else of_char CHR ''_'') # slugify cs"
  by (simp add: slugify_def)

lemma slugify_Nil: "slugify [] = []" by (simp add: slugify_def)

lemma slugify_length: "length (slugify a) = length a" by (simp add: slugify_def)

lemma slugify_inj_restricted:
  "list_all isAlnumOrSlash a \<Longrightarrow> list_all isAlnumOrSlash b \<Longrightarrow>
     slugify a = slugify b \<Longrightarrow> a = b"
proof (induction a arbitrary: b)
  case Nil
  from Nil.prems(3) have "length b = 0" using slugify_length[of b] by (simp add: slugify_Nil)
  then show ?case by simp
next
  case (Cons c cs)
  from Cons.prems(3) have "length b = Suc (length cs)"
    using slugify_length[of b] slugify_length[of "c # cs"] by simp
  then obtain d ds where b: "b = d # ds" by (cases b) simp_all
  have hd_eq: "(if isSlugSafe (if c = of_char CHR ''/'' then of_char CHR ''-'' else c)
          then (if c = of_char CHR ''/'' then of_char CHR ''-'' else c) else of_char CHR ''_'')
       = (if isSlugSafe (if d = of_char CHR ''/'' then of_char CHR ''-'' else d)
          then (if d = of_char CHR ''/'' then of_char CHR ''-'' else d) else of_char CHR ''_'')"
    and tl_eq: "slugify cs = slugify ds"
    using Cons.prems(3) unfolding b slugify_Cons by simp_all
  have cd: "isAlnumOrSlash c" "isAlnumOrSlash d" "list_all isAlnumOrSlash cs" "list_all isAlnumOrSlash ds"
    using Cons.prems(1,2) unfolding b by simp_all
  have "c = d" by (rule slug_unit_inj[OF cd(1) cd(2) hd_eq])
  moreover have "cs = ds" by (rule Cons.IH[OF cd(3) cd(4) tl_eq])
  ultimately show ?case unfolding b by simp
qed
lemma slug_unit_eq:
  "(if isSlugSafe (if c = of_char CHR ''/'' then of_char CHR ''-'' else c)
      then (if c = of_char CHR ''/'' then of_char CHR ''-'' else c) else of_char CHR ''_'')
   = (if isSlugSafe (if d = of_char CHR ''/'' then of_char CHR ''-'' else d)
      then (if d = of_char CHR ''/'' then of_char CHR ''-'' else d) else of_char CHR ''_'')
   \<longleftrightarrow>
     c = d
     \<or> ((c = of_char CHR ''/'' \<or> c = of_char CHR ''-'') \<and> (d = of_char CHR ''/'' \<or> d = of_char CHR ''-''))
     \<or> (\<not> isSlugSafe c \<and> c \<noteq> of_char CHR ''/'' \<and> \<not> isSlugSafe d \<and> d \<noteq> of_char CHR ''/'')"
  apply (simp add: isSlugSafe_def split: if_splits)
  by presburger

lemma slugify_nth:
  "i < length a \<Longrightarrow> slugify a ! i =
     (if isSlugSafe (if a ! i = of_char CHR ''/'' then of_char CHR ''-'' else a ! i)
      then (if a ! i = of_char CHR ''/'' then of_char CHR ''-'' else a ! i) else of_char CHR ''_'')"
  by (simp add: slugify_def)

lemma slugify_eq_iff:
  "slugify a = slugify b \<longleftrightarrow>
     length a = length b \<and>
     (\<forall>i < length a.
        a ! i = b ! i
        \<or> ((a ! i = of_char CHR ''/'' \<or> a ! i = of_char CHR ''-'')
            \<and> (b ! i = of_char CHR ''/'' \<or> b ! i = of_char CHR ''-''))
        \<or> (\<not> isSlugSafe (a ! i) \<and> a ! i \<noteq> of_char CHR ''/''
            \<and> \<not> isSlugSafe (b ! i) \<and> b ! i \<noteq> of_char CHR ''/''))"
proof -
  have "slugify a = slugify b \<longleftrightarrow>
      length a = length b \<and> (\<forall>i < length a. slugify a ! i = slugify b ! i)"
    using list_eq_iff_nth_eq [of "slugify a" "slugify b"] by (simp add: slugify_length)
  also have "\<dots> \<longleftrightarrow> length a = length b \<and>
     (\<forall>i < length a.
        a ! i = b ! i
        \<or> ((a ! i = of_char CHR ''/'' \<or> a ! i = of_char CHR ''-'')
            \<and> (b ! i = of_char CHR ''/'' \<or> b ! i = of_char CHR ''-''))
        \<or> (\<not> isSlugSafe (a ! i) \<and> a ! i \<noteq> of_char CHR ''/''
            \<and> \<not> isSlugSafe (b ! i) \<and> b ! i \<noteq> of_char CHR ''/''))"
  proof (cases "length a = length b")
    case True
    have "\<And>i. i < length a \<Longrightarrow>
        (slugify a ! i = slugify b ! i) =
        (a ! i = b ! i
        \<or> ((a ! i = of_char CHR ''/'' \<or> a ! i = of_char CHR ''-'')
            \<and> (b ! i = of_char CHR ''/'' \<or> b ! i = of_char CHR ''-''))
        \<or> (\<not> isSlugSafe (a ! i) \<and> a ! i \<noteq> of_char CHR ''/''
            \<and> \<not> isSlugSafe (b ! i) \<and> b ! i \<noteq> of_char CHR ''/''))"
    proof -
      fix i assume i: "i < length a"
      with True have j: "i < length b" by simp
      show "(slugify a ! i = slugify b ! i) =
        (a ! i = b ! i
        \<or> ((a ! i = of_char CHR ''/'' \<or> a ! i = of_char CHR ''-'')
            \<and> (b ! i = of_char CHR ''/'' \<or> b ! i = of_char CHR ''-''))
        \<or> (\<not> isSlugSafe (a ! i) \<and> a ! i \<noteq> of_char CHR ''/''
            \<and> \<not> isSlugSafe (b ! i) \<and> b ! i \<noteq> of_char CHR ''/''))"
        unfolding slugify_nth [OF i] slugify_nth [OF j] by (rule slug_unit_eq)
    qed
    with True show ?thesis by auto
  next
    case False
    then show ?thesis by simp
  qed
  finally show ?thesis .
qed

text \<open>
  C8 (as the code has it). The key derivation is a function of the identity alone and
  works code unit by code unit: it keeps the length, writes \<open>-\<close> for \<open>/\<close>, keeps every
  ASCII letter (in its case), digit and hyphen where it is, and writes \<open>_\<close> for every
  other code unit, so a key has only letters, digits, \<open>-\<close> and \<open>_\<close>. Two identities
  have the same key exactly when they have the same length and at every position are
  equal, or are both one of \<open>/\<close> and \<open>-\<close>, or are both outside the safe set and not
  \<open>/\<close>. So the derivation is injective on identities made of letters, digits and
  \<open>/\<close>, and not in general.
\<close>

theorem slugify_properties:
  "length (slugify a) = length a
   \<and> (\<forall>i < length a.
        (a ! i = of_char CHR ''/'' \<longrightarrow> slugify a ! i = of_char CHR ''-'') \<and>
        (isSlugSafe (a ! i) \<longrightarrow> slugify a ! i = a ! i) \<and>
        (\<not> isSlugSafe (a ! i) \<and> a ! i \<noteq> of_char CHR ''/'' \<longrightarrow> slugify a ! i = of_char CHR ''_''))
   \<and> (\<forall>c \<in> set (slugify a). isSlugSafe c \<or> c = of_char CHR ''_'')
   \<and> (slugify a = slugify b \<longleftrightarrow>
        length a = length b \<and>
        (\<forall>i < length a.
           a ! i = b ! i
           \<or> ((a ! i = of_char CHR ''/'' \<or> a ! i = of_char CHR ''-'')
               \<and> (b ! i = of_char CHR ''/'' \<or> b ! i = of_char CHR ''-''))
           \<or> (\<not> isSlugSafe (a ! i) \<and> a ! i \<noteq> of_char CHR ''/''
               \<and> \<not> isSlugSafe (b ! i) \<and> b ! i \<noteq> of_char CHR ''/'')))
   \<and> (list_all isAlnumOrSlash a \<and> list_all isAlnumOrSlash b \<and> slugify a = slugify b
        \<longrightarrow> a = b)"
proof -
  have 1: "length (slugify a) = length a" by (rule slugify_length)
  have safe: "\<And>c. isSlugSafe c \<Longrightarrow> c \<noteq> of_char CHR ''/''"
    unfolding isSlugSafe_def by simp presburger
  have hyphen: "isSlugSafe (of_char CHR ''-'')" by (simp add: isSlugSafe_def)
  have 2: "\<forall>i < length a.
        (a ! i = of_char CHR ''/'' \<longrightarrow> slugify a ! i = of_char CHR ''-'') \<and>
        (isSlugSafe (a ! i) \<longrightarrow> slugify a ! i = a ! i) \<and>
        (\<not> isSlugSafe (a ! i) \<and> a ! i \<noteq> of_char CHR ''/'' \<longrightarrow> slugify a ! i = of_char CHR ''_'')"
  proof (intro allI impI conjI)
    fix i assume i: "i < length a" and "a ! i = of_char CHR ''/''"
    then show "slugify a ! i = of_char CHR ''-''"
      unfolding slugify_nth [OF i] using hyphen by simp
  next
    fix i assume i: "i < length a" and s: "isSlugSafe (a ! i)"
    from safe [OF s] s show "slugify a ! i = a ! i"
      unfolding slugify_nth [OF i] by simp
  next
    fix i assume i: "i < length a"
      and "\<not> isSlugSafe (a ! i) \<and> a ! i \<noteq> of_char CHR ''/''"
    then show "slugify a ! i = of_char CHR ''_''"
      unfolding slugify_nth [OF i] by simp
  qed
  have 3: "\<forall>c \<in> set (slugify a). isSlugSafe c \<or> c = of_char CHR ''_''"
    by (induction a) (simp_all add: slugify_Nil slugify_Cons)
  have 4: "list_all isAlnumOrSlash a \<and> list_all isAlnumOrSlash b
      \<and> slugify a = slugify b \<longrightarrow> a = b"
    using slugify_inj_restricted by blast
  from 1 2 3 4 slugify_eq_iff [of a b] show ?thesis by blast
qed

theorem slugify_properties_witness:
  "length (slugify (js ''Ab/c.d'')) = 6
   \<and> slugify (js ''Ab/c.d'') ! 0 = of_char CHR ''A''
   \<and> slugify (js ''Ab/c.d'') ! 2 = of_char CHR ''-''
   \<and> slugify (js ''Ab/c.d'') ! 4 = of_char CHR ''_''
   \<and> slugify (js ''Ab/c.d'') = slugify (js ''Ab-c_d'')
   \<and> slugify (js ''Ab/c'') \<noteq> slugify (js ''ab/c'')"
proof -
  have len: "length (js ''Ab/c.d'') = 6" "0 < length (js ''Ab/c.d'')"
    "2 < length (js ''Ab/c.d'')" "4 < length (js ''Ab/c.d'')" by (simp_all add: js_def)
  have u0: "isSlugSafe (js ''Ab/c.d'' ! 0)" "js ''Ab/c.d'' ! 0 = of_char CHR ''A''"
    by (simp_all add: js_def isSlugSafe_def)
  have u2: "js ''Ab/c.d'' ! 2 = of_char CHR ''/''" by (simp add: js_def)
  have u4: "\<not> isSlugSafe (js ''Ab/c.d'' ! 4) \<and> js ''Ab/c.d'' ! 4 \<noteq> of_char CHR ''/''"
    by (simp add: js_def isSlugSafe_def)
  have same: "length (js ''Ab/c.d'') = length (js ''Ab-c_d'') \<and>
        (\<forall>i < length (js ''Ab/c.d'').
           js ''Ab/c.d'' ! i = js ''Ab-c_d'' ! i
           \<or> ((js ''Ab/c.d'' ! i = of_char CHR ''/'' \<or> js ''Ab/c.d'' ! i = of_char CHR ''-'')
               \<and> (js ''Ab-c_d'' ! i = of_char CHR ''/'' \<or> js ''Ab-c_d'' ! i = of_char CHR ''-''))
           \<or> (\<not> isSlugSafe (js ''Ab/c.d'' ! i) \<and> js ''Ab/c.d'' ! i \<noteq> of_char CHR ''/''
               \<and> \<not> isSlugSafe (js ''Ab-c_d'' ! i) \<and> js ''Ab-c_d'' ! i \<noteq> of_char CHR ''/''))"
    by (simp add: js_def isSlugSafe_def less_Suc_eq eval_nat_numeral)
  have alnum: "list_all isAlnumOrSlash (js ''Ab/c'')"
    "list_all isAlnumOrSlash (js ''ab/c'')"
    by (simp_all add: js_def isAlnumOrSlash_def isSlugSafe_def)
  have neq: "js ''Ab/c'' \<noteq> js ''ab/c''"
    by (simp add: js_def)
  note inst = slugify_properties [of "js ''Ab/c.d''" "js ''Ab-c_d''"]
  note inst2 = slugify_properties [of "js ''Ab/c''" "js ''ab/c''"]
  from inst have a: "length (slugify (js ''Ab/c.d'')) = 6" using len by simp
  from inst have b: "slugify (js ''Ab/c.d'') ! 0 = of_char CHR ''A''" using len(2) u0 by metis
  from inst have c: "slugify (js ''Ab/c.d'') ! 2 = of_char CHR ''-''" using len(3) u2 by blast
  from inst have d: "slugify (js ''Ab/c.d'') ! 4 = of_char CHR ''_''" using len(4) u4 by blast
  from inst have e: "slugify (js ''Ab/c.d'') = slugify (js ''Ab-c_d'')" using same by blast
  from inst2 have f: "slugify (js ''Ab/c'') \<noteq> slugify (js ''ab/c'')" using alnum neq by blast
  from a b c d e f show ?thesis by blast
qed

text \<open>
  C8 (as stated) fails: the distinct identities \<open>a/b\<close> and \<open>a-b\<close> have the same key.
\<close>

theorem slugify_collision:
  "js ''a/b'' \<noteq> js ''a-b'' \<and> slugify (js ''a/b'') = slugify (js ''a-b'')"
  by (simp add: js_def slugify_def isSlugSafe_def)

section \<open>Properties of the classifier client\<close>

lemma find_first_match:
  "(\<forall>c \<in> set pre. \<not> P c) \<Longrightarrow> P x \<Longrightarrow> find P (pre @ x # post) = Some x"
  by (induction pre) auto

lemma find_in_set: "find P xs = Some x \<Longrightarrow> x \<in> set xs"
  by (induction xs) (auto split: if_splits)

lemma find_no_match: "(\<forall>c \<in> set xs. \<not> P c) \<Longrightarrow> find P xs = None"
  by (induction xs) auto

lemma other_tools_in_taxonomy: "js ''Other Tools'' \<in> set CATEGORY_NAMES"
  by (simp add: CATEGORY_NAMES_def CATEGORIES_def)

lemma parseResponse_valid:
  assumes "matchJson text = Some m" "JSON_parse m = Inr parsed"
    "categoryField parsed = JString s" "trim s \<noteq> []"
  shows "parseResponse JSON_parse text =
     (case find (categoryMatches (trim s)) CATEGORIES of
        Some matchedCategory \<Rightarrow>
          Inr \<lparr>CategorizationResult.category = name matchedCategory, confidence = confidenceField parsed,
               reasoning = reasoningField parsed\<rparr>
      | None \<Rightarrow>
          Inr \<lparr>CategorizationResult.category = js ''Other Tools'', confidence = confidenceField parsed,
               reasoning = js ''Original: '' @ trim s @ js ''. Fallback to Other Tools.''\<rparr>)"
proof -
  from assms(4) have "s \<noteq> []" by (auto simp: trim_def)
  with assms show ?thesis by (simp add: parseResponse_def Let_def)
qed

lemma parseResponse_category_in_taxonomy:
  assumes "parseResponse JSON_parse text = Inr r"
  shows "CategorizationResult.category r \<in> set CATEGORY_NAMES"
proof -
  from assms obtain m parsed where m: "matchJson text = Some m" and p: "JSON_parse m = Inr parsed"
    by (auto simp: parseResponse_def split: option.splits sum.splits)
  from assms m p have ok: "truthy (categoryField parsed)" "typeofString (categoryField parsed)"
    "trim (stringOf (categoryField parsed)) \<noteq> []"
    by (auto simp: parseResponse_def split: if_splits)
  show ?thesis
  proof (cases "find (categoryMatches (trim (stringOf (categoryField parsed)))) CATEGORIES")
    case None
    with assms m p ok have "CategorizationResult.category r = js ''Other Tools''"
      by (auto simp: parseResponse_def Let_def)
    then show ?thesis using other_tools_in_taxonomy by simp
  next
    case (Some c)
    with assms m p ok have "CategorizationResult.category r = name c"
      by (auto simp: parseResponse_def Let_def)
    moreover from Some have "c \<in> set CATEGORIES" by (rule find_in_set)
    ultimately show ?thesis by (simp add: CATEGORY_NAMES_def)
  qed
qed

text \<open>
  C4 (as the code has it). For a reply whose category is a non-blank string, the trimmed
  string is matched against the taxonomy in declaration order by three rules: the name
  is the string, the emoji, a space and the name are the string, or the string contains
  the name. The first entry that matches gives the category (its name), and the reasoning
  of the reply is kept. When no entry matches, the category is \<open>Other Tools\<close> and the
  reasoning is replaced by a note that records the trimmed string. No error is raised,
  and the category is a name of the taxonomy in both cases.
\<close>

theorem parseResponse_normalization:
  assumes "matchJson text = Some m" "JSON_parse m = Inr parsed"
    "categoryField parsed = JString s" "trim s \<noteq> []"
  shows "(\<forall>pre cat post.
            CATEGORIES = pre @ cat # post \<and> (\<forall>c \<in> set pre. \<not> categoryMatches (trim s) c)
              \<and> categoryMatches (trim s) cat
            \<longrightarrow> parseResponse JSON_parse text =
                  Inr \<lparr>CategorizationResult.category = name cat, confidence = confidenceField parsed,
                       reasoning = reasoningField parsed\<rparr>)
       \<and> ((\<forall>cat \<in> set CATEGORIES. \<not> categoryMatches (trim s) cat)
            \<longrightarrow> parseResponse JSON_parse text =
                  Inr \<lparr>CategorizationResult.category = js ''Other Tools'', confidence = confidenceField parsed,
                       reasoning = js ''Original: '' @ trim s @ js ''. Fallback to Other Tools.''\<rparr>)
       \<and> (\<exists>r. parseResponse JSON_parse text = Inr r \<and> CategorizationResult.category r \<in> set CATEGORY_NAMES)"
proof (intro conjI allI impI)
  fix pre cat post
  assume h: "CATEGORIES = pre @ cat # post \<and> (\<forall>c \<in> set pre. \<not> categoryMatches (trim s) c)
              \<and> categoryMatches (trim s) cat"
  then have "find (categoryMatches (trim s)) CATEGORIES = Some cat"
    using find_first_match [of pre "categoryMatches (trim s)" cat post] by simp
  then show "parseResponse JSON_parse text =
       Inr \<lparr>CategorizationResult.category = name cat, confidence = confidenceField parsed,
            reasoning = reasoningField parsed\<rparr>"
    using parseResponse_valid [where JSON_parse = JSON_parse, OF assms] by simp
next
  assume "\<forall>cat \<in> set CATEGORIES. \<not> categoryMatches (trim s) cat"
  then have "find (categoryMatches (trim s)) CATEGORIES = None"
    by (rule find_no_match)
  then show "parseResponse JSON_parse text =
       Inr \<lparr>CategorizationResult.category = js ''Other Tools'', confidence = confidenceField parsed,
            reasoning = js ''Original: '' @ trim s @ js ''. Fallback to Other Tools.''\<rparr>"
    using parseResponse_valid [where JSON_parse = JSON_parse, OF assms] by simp
next
  obtain r where r: "parseResponse JSON_parse text = Inr r"
    using parseResponse_valid [where JSON_parse = JSON_parse, OF assms] by (cases "find (categoryMatches (trim s)) CATEGORIES") auto
  then show "\<exists>r. parseResponse JSON_parse text = Inr r \<and> CategorizationResult.category r \<in> set CATEGORY_NAMES"
    using parseResponse_category_in_taxonomy by blast
qed

lemma matchJson_Some_decomp:
  assumes "matchJson text = Some m"
  shows "\<exists>pre body post. text = pre @ m @ post \<and> m = of_char CHR ''{'' # body @ [of_char CHR ''}'']
           \<and> of_char CHR ''{'' \<notin> set pre \<and> of_char CHR ''}'' \<notin> set post"
proof -
  let ?L = "\<lambda>c::nat. c \<noteq> of_char CHR ''{''" and ?R = "\<lambda>c::nat. c \<noteq> of_char CHR ''}''"
  from assms obtain b rest where d1: "dropWhile ?L text = b # rest"
    by (auto simp: matchJson_def split: list.splits)
  from assms d1 obtain r body where d2: "dropWhile ?R (rev rest) = r # body"
    and m: "m = b # rev body @ [r]"
    by (auto simp: matchJson_def split: list.splits)
  have c1: "text = takeWhile ?L text @ b # rest \<and> \<not> ?L b"
    using d1 dropWhile_eq_Cons_conv [of ?L "text" b rest] by blast
  have c2: "rev rest = takeWhile ?R (rev rest) @ r # body \<and> \<not> ?R r"
    using d2 dropWhile_eq_Cons_conv [of ?R "rev rest" r body] by blast
  from c1 have b: "b = of_char CHR ''{''" by blast
  from c2 have r: "r = of_char CHR ''}''" by blast
  from c1 have t: "text = takeWhile ?L text @ b # rest" by blast
  from c2 have e: "rev rest = takeWhile ?R (rev rest) @ r # body" by blast
  have "rest = rev (rev rest)" by simp
  also have "\<dots> = rev (takeWhile ?R (rev rest) @ r # body)"
    by (rule arg_cong [where f = rev, OF e])
  also have "\<dots> = rev body @ r # rev (takeWhile ?R (rev rest))" by simp
  finally have rest: "rest = rev body @ r # rev (takeWhile ?R (rev rest))" .
  have nl: "of_char CHR ''{'' \<notin> set (takeWhile ?L text)"
    using set_takeWhileD [of _ ?L "text"] by blast
  have nr: "of_char CHR ''}'' \<notin> set (rev (takeWhile ?R (rev rest)))"
    using set_takeWhileD [of _ ?R "rev rest"] by auto
  have "text = takeWhile ?L text @ m @ rev (takeWhile ?R (rev rest))"
    using t rest m by simp
  with m b r nl nr show ?thesis by blast
qed

lemma matchJson_None_iff:
  "matchJson text = None \<longleftrightarrow>
     \<not> (\<exists>pre body post. text = pre @ of_char CHR ''{'' # body @ of_char CHR ''}'' # post)"
proof
  assume n: "matchJson text = None"
  show "\<not> (\<exists>pre body post. text = pre @ of_char CHR ''{'' # body @ of_char CHR ''}'' # post)"
  proof
    let ?L = "\<lambda>c::nat. c \<noteq> of_char CHR ''{''" and ?R = "\<lambda>c::nat. c \<noteq> of_char CHR ''}''"
    assume "\<exists>pre body post. text = pre @ of_char CHR ''{'' # body @ of_char CHR ''}'' # post"
    then obtain pre body post where
      t: "text = pre @ of_char CHR ''{'' # body @ of_char CHR ''}'' # post" by blast
    have "\<exists>u. dropWhile ?L text = of_char CHR ''{'' # u @ of_char CHR ''}'' # post"
    proof (cases "\<forall>x \<in> set pre. ?L x")
      case True
      then have "dropWhile ?L text = of_char CHR ''{'' # body @ of_char CHR ''}'' # post"
        unfolding t by (simp add: dropWhile_append)
      then show ?thesis by blast
    next
      case False
      then have ne: "dropWhile ?L pre \<noteq> []" by (simp add: dropWhile_eq_Nil_conv)
      then obtain v where v: "dropWhile ?L pre = of_char CHR ''{'' # v"
        by (cases "dropWhile ?L pre") (auto simp: dropWhile_eq_Cons_conv)
      from False have "dropWhile ?L text = dropWhile ?L pre @ of_char CHR ''{'' # body @ of_char CHR ''}'' # post"
        unfolding t by (simp add: dropWhile_append)
      then have "dropWhile ?L text = of_char CHR ''{'' # (v @ of_char CHR ''{'' # body) @ of_char CHR ''}'' # post"
        using v by simp
      then show ?thesis by blast
    qed
    then obtain u where d1: "dropWhile ?L text = of_char CHR ''{'' # u @ of_char CHR ''}'' # post"
      by blast
    have "of_char CHR ''}'' \<in> set (rev (u @ of_char CHR ''}'' # post))" by simp
    then have "dropWhile ?R (rev (u @ of_char CHR ''}'' # post)) \<noteq> []"
      unfolding dropWhile_eq_Nil_conv by blast
    then obtain r w where "dropWhile ?R (rev (u @ of_char CHR ''}'' # post)) = r # w"
      by (cases "dropWhile ?R (rev (u @ of_char CHR ''}'' # post))") auto
    then have "matchJson text \<noteq> None"
      unfolding matchJson_def d1 by simp
    with n show False by simp
  qed
next
  assume no: "\<not> (\<exists>pre body post. text = pre @ of_char CHR ''{'' # body @ of_char CHR ''}'' # post)"
  show "matchJson text = None"
  proof (cases "matchJson text")
    case None
    then show ?thesis .
  next
    case (Some m)
    from matchJson_Some_decomp [OF Some] obtain pre body post where
      "text = pre @ m @ post" "m = of_char CHR ''{'' # body @ [of_char CHR ''}'']" by blast
    then have "text = pre @ of_char CHR ''{'' # body @ of_char CHR ''}'' # post" by simp
    with no show ?thesis by blast
  qed
qed

lemma parseResponse_no_json:
  "matchJson text = None \<Longrightarrow>
     parseResponse JSON_parse text = Inl (GeminiAPIError (js ''No JSON found in response'') None True None)"
  by (simp add: parseResponse_def)

lemma parseResponse_invalid_category:
  "matchJson text = Some m \<Longrightarrow> JSON_parse m = Inr parsed \<Longrightarrow>
   \<not> typeofString (categoryField parsed) \<or> trim (stringOf (categoryField parsed)) = [] \<Longrightarrow>
     parseResponse JSON_parse text =
       Inl (GeminiAPIError (js ''Empty or invalid category in response'') (Some 503) True None)"
  by (auto simp: parseResponse_def)

lemma matchJson_braces: "matchJson (js ''{}'') = Some (js ''{}'')"
  by (simp add: matchJson_def js_def)

lemma trim_quantum: "trim (js ''Quantum Cryptography'') = js ''Quantum Cryptography''"
  by (simp add: trim_def js_def isWhiteSpace_def)

lemma trim_frontend:
  "trim emojiFrontend = emojiFrontendTrimmed" "emojiFrontendTrimmed \<noteq> []"
  by (simp_all add: emojiFrontend_def emojiFrontendTrimmed_def trim_def js_def isWhiteSpace_def)

lemma quantum_no_match:
  "\<forall>cat \<in> set CATEGORIES. \<not> categoryMatches (js ''Quantum Cryptography'') cat"
  by (simp add: CATEGORIES_def categoryMatches_def js_def)

lemma frontend_split:
  "CATEGORIES = take 2 CATEGORIES @ (CATEGORIES ! 2) # drop 3 CATEGORIES"
  "name (CATEGORIES ! 2) = js ''Frontend Frameworks''"
  "\<forall>c \<in> set (take 2 CATEGORIES). \<not> categoryMatches emojiFrontendTrimmed c"
  "categoryMatches emojiFrontendTrimmed (CATEGORIES ! 2)"
  by (simp_all add: CATEGORIES_def categoryMatches_def js_def emojiFrontendTrimmed_def)

lemma invalidRequest_not_retryable: "\<not> isRetryableError invalidRequest"
  by (simp add: invalidRequest_def retryableSignature_def statusOrCode_def js_def)

lemma attempt_invalidRequest: "attempt JSON_parse (Inl invalidRequest) = Inl wrappedInvalidRequest"
  using invalidRequest_not_retryable
  by (simp add: attempt_def attemptBody_def wrappedInvalidRequest_def)
     (simp add: invalidRequest_def statusOrCode_def js_def)

lemma hook_wrappedInvalidRequest: "onFailedAttempt wrappedInvalidRequest = None"
  by (simp add: onFailedAttempt_def wrappedInvalidRequest_def js_def)

lemma categorize_invalidRequest:
  "categorize defaultConfig JSON_parse (\<lambda>k. Inl invalidRequest) = (6, Inl wrappedInvalidRequest)"
proof -
  have five: "RETRY_MAX_ATTEMPTS defaultConfig = Suc (Suc (Suc (Suc (Suc 0))))"
    by (simp add: defaultConfig_def)
  show ?thesis
    unfolding categorize_def five
    by (simp add: attempt_invalidRequest hook_wrappedInvalidRequest)
qed

lemma endpointDown_always: "endpointDown i = (\<lambda>k. Inl invalidRequest)"
  by (rule ext) (simp add: endpointDown_def)

text \<open>
  C2. The claim: when a single attempt fails with an error that is not flagged retryable,
  the retry wrapper stops after that one attempt. The code: the hook stops the retries
  only if the message of the error contains the text \<open>GeminiAPIError\<close>, and the message
  of the wrapped error starts with \<open>Gemini API error: \<close>, so that a permanent failure
  such as \<open>invalid request\<close> is retried until the retries are used up: six attempts
  with the default configuration.
\<close>

theorem categorize_retries_nonretryable:
  "\<not> isRetryableError invalidRequest \<and>
   categorize defaultConfig parseBlank (endpointDown 0) = (6, Inl wrappedInvalidRequest)"
  using invalidRequest_not_retryable categorize_invalidRequest [of parseBlank]
  by (simp add: endpointDown_always)

lemma parseQuantum_result:
  "parseResponse parseQuantum (js ''{}'') =
     Inr \<lparr>CategorizationResult.category = js ''Other Tools'', confidence = 70,
          reasoning = js ''Original: Quantum Cryptography. Fallback to Other Tools.''\<rparr>"
proof -
  have "find (categoryMatches (js ''Quantum Cryptography'')) CATEGORIES = None"
    using quantum_no_match by (rule find_no_match)
  moreover have "parseQuantum (js ''{}'') = Inr \<lparr>categoryField = JString (js ''Quantum Cryptography''), confidenceField = 70,
          reasoningField = js ''Too exotic''\<rparr>" by (simp add: parseQuantum_def)
  moreover have "js ''Quantum Cryptography'' \<noteq> []" by (simp add: js_def)
  moreover have "js ''Original: '' @ js ''Quantum Cryptography'' @ js ''. Fallback to Other Tools.''
      = js ''Original: Quantum Cryptography. Fallback to Other Tools.''" by (simp add: js_def)
  ultimately show ?thesis
    by (simp add: parseResponse_def matchJson_braces trim_quantum Let_def)
qed

theorem parseResponse_normalization_witness:
  "parseResponse parseQuantum (js ''{}'') =
     Inr \<lparr>CategorizationResult.category = js ''Other Tools'', confidence = 70,
          reasoning = js ''Original: Quantum Cryptography. Fallback to Other Tools.''\<rparr>
   \<and> parseResponse parseFrontend (js ''{}'') =
     Inr \<lparr>CategorizationResult.category = js ''Frontend Frameworks'', confidence = 95, reasoning = js ''x''\<rparr>"
proof -
  have q: "parseQuantum (js ''{}'') = Inr \<lparr>categoryField = JString (js ''Quantum Cryptography''),
      confidenceField = 70, reasoningField = js ''Too exotic''\<rparr>"
    by (simp add: parseQuantum_def)
  have qne: "trim (js ''Quantum Cryptography'') \<noteq> []" unfolding trim_quantum by (simp add: js_def)
  have f: "parseFrontend (js ''{}'') = Inr \<lparr>categoryField = JString emojiFrontend,
          confidenceField = 95, reasoningField = js ''x''\<rparr>"
    by (simp add: parseFrontend_def)
  have fne: "trim emojiFrontend \<noteq> []" by (simp add: trim_frontend)
  have cat: "js ''Original: '' @ js ''Quantum Cryptography'' @ js ''. Fallback to Other Tools.''
      = js ''Original: Quantum Cryptography. Fallback to Other Tools.''" by (simp add: js_def)
  note a = parseResponse_normalization [where JSON_parse = parseQuantum, OF matchJson_braces q _ qne]
  note b = parseResponse_normalization [where JSON_parse = parseFrontend, OF matchJson_braces f _ fne]
  have 1: "parseResponse parseQuantum (js ''{}'') =
     Inr \<lparr>CategorizationResult.category = js ''Other Tools'', confidence = 70,
          reasoning = js ''Original: Quantum Cryptography. Fallback to Other Tools.''\<rparr>"
    using a quantum_no_match cat by (simp add: trim_quantum)
  have 2: "parseResponse parseFrontend (js ''{}'') =
     Inr \<lparr>CategorizationResult.category = js ''Frontend Frameworks'', confidence = 95, reasoning = js ''x''\<rparr>"
    using b frontend_split unfolding trim_frontend(1)
    by (metis ParsedReply.select_convs(1,2,3))
  from 1 2 show ?thesis by simp
qed

text \<open>
  C4 (as stated) fails in its last part: the note is not appended to the reasoning of the
  reply, it replaces it. The reasoning \<open>Too exotic\<close> of the reply is gone from the result.
\<close>

theorem parseResponse_fallback_overwrites_reasoning:
  "parseResponse parseQuantum (js ''{}'') =
     Inr \<lparr>CategorizationResult.category = js ''Other Tools'', confidence = 70,
          reasoning = js ''Original: Quantum Cryptography. Fallback to Other Tools.''\<rparr>
   \<and> parseQuantum (js ''{}'') =
     Inr \<lparr>categoryField = JString (js ''Quantum Cryptography''), confidenceField = 70,
          reasoningField = js ''Too exotic''\<rparr>
   \<and> \<not> str_includes (js ''Original: Quantum Cryptography. Fallback to Other Tools.'') (js ''Too exotic'')"
proof -
  have "\<not> str_includes (js ''Original: Quantum Cryptography. Fallback to Other Tools.'') (js ''Too exotic'')"
    by (simp add: js_def)
  then show ?thesis using parseQuantum_result by (simp add: parseQuantum_def)
qed

text \<open>
  C7 (as the code has it). \<open>parseResponse\<close> takes the text from the first \<open>{\<close> to the
  last \<open>}\<close> of the reply; there is none exactly when the reply has no \<open>{\<close> followed
  later by a \<open>}\<close>, and then it fails with an error flagged retryable. When the category
  of the parsed reply is missing, not a string, or blank after trimming, it fails with an
  error flagged retryable as well.
\<close>

theorem parseResponse_malformed:
  "(matchJson text = None \<longleftrightarrow>
      \<not> (\<exists>pre body post. text = pre @ of_char CHR ''{'' # body @ of_char CHR ''}'' # post))
   \<and> (\<forall>m. matchJson text = Some m \<longrightarrow>
        (\<exists>pre body post. text = pre @ m @ post \<and> m = of_char CHR ''{'' # body @ [of_char CHR ''}'']
           \<and> of_char CHR ''{'' \<notin> set pre \<and> of_char CHR ''}'' \<notin> set post))
   \<and> (matchJson text = None \<longrightarrow>
        parseResponse JSON_parse text =
          Inl (GeminiAPIError (js ''No JSON found in response'') None True None)
        \<and> isRetryableError (GeminiAPIError (js ''No JSON found in response'') None True None))
   \<and> (\<forall>m parsed. matchJson text = Some m \<and> JSON_parse m = Inr parsed
         \<and> (\<not> typeofString (categoryField parsed) \<or> trim (stringOf (categoryField parsed)) = [])
        \<longrightarrow> parseResponse JSON_parse text =
              Inl (GeminiAPIError (js ''Empty or invalid category in response'') (Some 503) True None)
            \<and> isRetryableError
                (GeminiAPIError (js ''Empty or invalid category in response'') (Some 503) True None))"
proof -
  have 1: "matchJson text = None \<longleftrightarrow>
      \<not> (\<exists>pre body post. text = pre @ of_char CHR ''{'' # body @ of_char CHR ''}'' # post)"
    by (rule matchJson_None_iff)
  have 2: "\<forall>m. matchJson text = Some m \<longrightarrow>
        (\<exists>pre body post. text = pre @ m @ post \<and> m = of_char CHR ''{'' # body @ [of_char CHR ''}'']
           \<and> of_char CHR ''{'' \<notin> set pre \<and> of_char CHR ''}'' \<notin> set post)"
    using matchJson_Some_decomp by blast
  have 3: "matchJson text = None \<longrightarrow>
        parseResponse JSON_parse text =
          Inl (GeminiAPIError (js ''No JSON found in response'') None True None)
        \<and> isRetryableError (GeminiAPIError (js ''No JSON found in response'') None True None)"
    using parseResponse_no_json by simp
  have 4: "\<forall>m parsed. matchJson text = Some m \<and> JSON_parse m = Inr parsed
         \<and> (\<not> typeofString (categoryField parsed) \<or> trim (stringOf (categoryField parsed)) = [])
        \<longrightarrow> parseResponse JSON_parse text =
              Inl (GeminiAPIError (js ''Empty or invalid category in response'') (Some 503) True None)
            \<and> isRetryableError
                (GeminiAPIError (js ''Empty or invalid category in response'') (Some 503) True None)"
    using parseResponse_invalid_category [where JSON_parse = JSON_parse] by simp
  from 1 2 3 4 show ?thesis by blast
qed

theorem parseResponse_malformed_witness:
  "parseResponse parseBlank (js ''Sorry, I cannot answer'') =
     Inl (GeminiAPIError (js ''No JSON found in response'') None True None)
   \<and> parseResponse parseBlank (js ''{}'') =
     Inl (GeminiAPIError (js ''Empty or invalid category in response'') (Some 503) True None)"
proof -
  have n: "matchJson (js ''Sorry, I cannot answer'') = None" by (simp add: matchJson_def js_def)
  have p: "parseBlank (js ''{}'') = Inr \<lparr>categoryField = JString (js ''  ''), confidenceField = 95,
      reasoningField = js ''x''\<rparr>" by (simp add: parseBlank_def)
  have blank: "trim (stringOf (categoryField \<lparr>categoryField = JString (js ''  ''), confidenceField = 95,
      reasoningField = js ''x''\<rparr>)) = []" by (simp add: trim_def js_def isWhiteSpace_def)
  from parseResponse_malformed [of "js ''Sorry, I cannot answer''" parseBlank] n
  have 1: "parseResponse parseBlank (js ''Sorry, I cannot answer'') =
     Inl (GeminiAPIError (js ''No JSON found in response'') None True None)" by blast
  from parseResponse_malformed [of "js ''{}''" parseBlank] matchJson_braces p blank
  have 2: "parseResponse parseBlank (js ''{}'') =
     Inl (GeminiAPIError (js ''Empty or invalid category in response'') (Some 503) True None)" by blast
  from 1 2 show ?thesis by simp
qed

text \<open>
  C7 (as stated) fails in its first part: on \<open>{} {}\<close> the first balanced object is
  \<open>{}\<close>, and the code takes the whole text.
\<close>

theorem matchJson_not_first_balanced:
  "matchJson (js ''{} {}'') = Some (js ''{} {}'')
   \<and> spec_firstBalancedObject (js ''{} {}'') = Some (js ''{}'')
   \<and> js ''{} {}'' \<noteq> js ''{}''"
  by (simp add: matchJson_def js_def)

section \<open>Segments of a task, field by field\<close>

lemma callGemini_fields:
  "stats (callGemini i st) = stats st"
  "files (callGemini i st) = files st"
  "completed (callGemini i st) = completed st"
  "results (callGemini i st) = results st"
  "progressLog (callGemini i st) = progressLog st"
  "geminiCalls (callGemini i st) = geminiCalls st @ [i]"
  "tasks (callGemini i st) = (tasks st)[i := AwaitGemini]"
  by (simp_all add: callGemini_def)

lemma classified_fields:
  "stats (classified env i r response st) =
     (stats st)\<lparr>analyzed := analyzed (stats st) + 1,
       totalTokens := totalTokens (stats st) + GeminiResponse.tokensUsed response,
       totalWebSearches := totalWebSearches (stats st) + groundingChunks response\<rparr>"
  "files (classified env i r response st) = files st"
  "completed (classified env i r response st) = completed st"
  "results (classified env i r response st) = results st"
  "progressLog (classified env i r response st) = progressLog st"
  "geminiCalls (classified env i r response st) = geminiCalls st"
  "tasks (classified env i r response st) =
     (tasks st)[i := AwaitSave (freshRecord env i r response) (GeminiResponse.tokensUsed response)]"
  by (simp_all add: classified_def Let_def)

lemma saved_fields:
  "stats (saved env i r result tokens st) = stats st"
  "files (saved env i r result tokens st) = files st"
  "completed (saved env i r result tokens st) = completed st + 1"
  "results (saved env i r result tokens st) = results st"
  "map current (progressLog (saved env i r result tokens st)) =
     map current (progressLog st) @ [completed st + 1]"
  "map AnalyzerProgress.repo (progressLog (saved env i r result tokens st)) =
     map AnalyzerProgress.repo (progressLog st) @ [full_name r]"
  "geminiCalls (saved env i r result tokens st) = geminiCalls st"
  "tasks (saved env i r result tokens st) = (tasks st)[i := Resolved result]"
  by (simp_all add: saved_def onProgress_def Let_def)

lemma catchBlock_fields:
  "stats (catchBlock env i r err st) =
     (stats st)\<lparr>AnalyzerStats.failed := AnalyzerStats.failed (stats st) + 1\<rparr>"
  "files (catchBlock env i r err st) = files st"
  "completed (catchBlock env i r err st) = completed st + 1"
  "results (catchBlock env i r err st) = results st"
  "map current (progressLog (catchBlock env i r err st)) =
     map current (progressLog st) @ [completed st + 1]"
  "map AnalyzerProgress.repo (progressLog (catchBlock env i r err st)) =
     map AnalyzerProgress.repo (progressLog st) @ [full_name r]"
  "geminiCalls (catchBlock env i r err st) = geminiCalls st"
  "tasks (catchBlock env i r err st) = (tasks st)[i := Resolved (degradedRecord env i r (getErrorMessage err))]"
  by (simp_all add: catchBlock_def onProgress_def Let_def)

lemma cacheHit_fields:
  "stats (cacheHit env i r (CachedRecord c) st) =
     (stats st)\<lparr>AnalyzerStats.cached := AnalyzerStats.cached (stats st) + 1\<rparr>"
  "files (cacheHit env i r (CachedRecord c) st) = files st"
  "completed (cacheHit env i r (CachedRecord c) st) = completed st + 1"
  "results (cacheHit env i r (CachedRecord c) st) = results st"
  "map current (progressLog (cacheHit env i r (CachedRecord c) st)) =
     map current (progressLog st) @ [completed st + 1]"
  "map AnalyzerProgress.repo (progressLog (cacheHit env i r (CachedRecord c) st)) =
     map AnalyzerProgress.repo (progressLog st) @ [full_name r]"
  "geminiCalls (cacheHit env i r (CachedRecord c) st) = geminiCalls st"
  "tasks (cacheHit env i r (CachedRecord c) st) = (tasks st)[i := Resolved c]"
  by (simp_all add: cacheHit_def onProgress_def Let_def)

lemma cacheHit_other_fields:
  "stats (cacheHit env i r CachedOther st) =
     (stats st)\<lparr>AnalyzerStats.cached := AnalyzerStats.cached (stats st) + 1,
       AnalyzerStats.failed := AnalyzerStats.failed (stats st) + 1\<rparr>"
  "files (cacheHit env i r CachedOther st) = files st"
  "completed (cacheHit env i r CachedOther st) = completed st + 2"
  "results (cacheHit env i r CachedOther st) = results st"
  "map current (progressLog (cacheHit env i r CachedOther st)) =
     map current (progressLog st) @ [completed st + 2]"
  "geminiCalls (cacheHit env i r CachedOther st) = geminiCalls st"
  "tasks (cacheHit env i r CachedOther st) =
     (tasks st)[i := Resolved (degradedRecord env i r (getErrorMessage categoryTypeError))]"
  by (simp_all add: cacheHit_def catchBlock_def onProgress_def Let_def)

text \<open>The segments of \<open>step\<close>, as cases.\<close>

lemma step_cases [case_names idle toCache call hit classified failed saved saveFailed push hitOther]:
  assumes "\<lbrakk>step env skipCache repos st i = st;
          length repos \<le> i \<or> length (tasks st) \<le> i \<or> (\<exists>result. tasks st ! i = Finished result)\<rbrakk>
          \<Longrightarrow> thesis"
    and "\<lbrakk>i < length repos; i < length (tasks st); tasks st ! i = Queued; \<not> skipCache;
          step env skipCache repos st i = st\<lparr>tasks := (tasks st)[i := AwaitCache]\<rparr>\<rbrakk> \<Longrightarrow> thesis"
    and "\<lbrakk>i < length repos; i < length (tasks st);
          (tasks st ! i = Queued \<and> skipCache) \<or>
          (tasks st ! i = AwaitCache \<and> getAnalysis (files st) (full_name (repos ! i)) = None);
          step env skipCache repos st i = callGemini i st\<rbrakk> \<Longrightarrow> thesis"
    and "\<And>c. \<lbrakk>i < length repos; i < length (tasks st); tasks st ! i = AwaitCache;
          files st (getAnalysisPath (full_name (repos ! i))) = Some (Stored c);
          step env skipCache repos st i =
            cacheHit env i (repos ! i) (CachedRecord (c\<lparr>AnalysisResult.cached := True\<rparr>)) st\<rbrakk>
          \<Longrightarrow> thesis"
    and "\<And>response. \<lbrakk>i < length repos; i < length (tasks st); tasks st ! i = AwaitGemini;
          categorizeOutcome env i = Inr response;
          step env skipCache repos st i = classified env i (repos ! i) response st\<rbrakk> \<Longrightarrow> thesis"
    and "\<And>err. \<lbrakk>i < length repos; i < length (tasks st); tasks st ! i = AwaitGemini;
          categorizeOutcome env i = Inl err;
          step env skipCache repos st i = catchBlock env i (repos ! i) err st\<rbrakk> \<Longrightarrow> thesis"
    and "\<And>result tokens. \<lbrakk>i < length repos; i < length (tasks st);
          tasks st ! i = AwaitSave result tokens; \<not> writeFails env i;
          step env skipCache repos st i =
            saved env i (repos ! i) result tokens
              (st\<lparr>files := (files st)(getAnalysisPath (full_name (AnalysisResult.repo result))
                        \<mapsto> Stored result)\<rparr>)\<rbrakk> \<Longrightarrow> thesis"
    and "\<And>result tokens. \<lbrakk>i < length repos; i < length (tasks st);
          tasks st ! i = AwaitSave result tokens; writeFails env i;
          step env skipCache repos st i =
            catchBlock env i (repos ! i)
              (cacheWriteError (getAnalysisPath (full_name (AnalysisResult.repo result)))) st\<rbrakk>
          \<Longrightarrow> thesis"
    and "\<And>result. \<lbrakk>i < length repos; i < length (tasks st); tasks st ! i = Resolved result;
          step env skipCache repos st i =
            st\<lparr>results := results st @ [result], tasks := (tasks st)[i := Finished result]\<rparr>\<rbrakk>
          \<Longrightarrow> thesis"
    and "\<lbrakk>i < length repos; i < length (tasks st); tasks st ! i = AwaitCache;
          files st (getAnalysisPath (full_name (repos ! i))) = Some NoCategorization;
          step env skipCache repos st i = cacheHit env i (repos ! i) CachedOther st\<rbrakk> \<Longrightarrow> thesis"
  shows thesis
proof (cases "length repos \<le> i \<or> length (tasks st) \<le> i")
  case True
  then have "step env skipCache repos st i = st" by (simp add: step_def)
  with True show ?thesis by (intro assms(1)) blast+
next
  case False
  then have lt: "i < length repos" "i < length (tasks st)" by simp_all
  show ?thesis
  proof (cases "tasks st ! i")
    case Queued
    show ?thesis
    proof (cases skipCache)
      case True
      with Queued False have "step env skipCache repos st i = callGemini i st"
        by (simp add: step_def)
      with lt Queued True show ?thesis by (intro assms(3)) simp_all
    next
      case False
      with Queued lt have "step env skipCache repos st i = st\<lparr>tasks := (tasks st)[i := AwaitCache]\<rparr>"
        by (simp add: step_def)
      with lt Queued False show ?thesis by (intro assms(2)) simp_all
    qed
  next
    case AwaitCache
    show ?thesis
    proof (cases "getAnalysis (files st) (full_name (repos ! i))")
      case None
      with AwaitCache lt have "step env skipCache repos st i = callGemini i st"
        by (simp add: step_def)
      with lt AwaitCache None show ?thesis by (intro assms(3)) simp_all
    next
      case (Some v)
      with AwaitCache lt have e: "step env skipCache repos st i = cacheHit env i (repos ! i) v st"
        by (simp add: step_def)
      show ?thesis
      proof (cases v)
        case (CachedRecord c')
        with Some obtain c where "files st (getAnalysisPath (full_name (repos ! i))) = Some (Stored c)"
          and "c' = c\<lparr>AnalysisResult.cached := True\<rparr>"
          by (auto simp: getAnalysis_def split: option.splits cache_file.splits)
        with lt AwaitCache e CachedRecord show ?thesis by (intro assms(4)) simp_all
      next
        case CachedOther
        with Some have "files st (getAnalysisPath (full_name (repos ! i))) = Some NoCategorization"
          by (auto simp: getAnalysis_def split: option.splits cache_file.splits)
        with lt AwaitCache e CachedOther show ?thesis by (intro assms(10)) simp_all
      qed
    qed
  next
    case AwaitGemini
    show ?thesis
    proof (cases "categorizeOutcome env i")
      case (Inl err)
      with AwaitGemini lt have "step env skipCache repos st i = catchBlock env i (repos ! i) err st"
        by (simp add: step_def)
      with lt AwaitGemini Inl show ?thesis by (intro assms(6)) simp_all
    next
      case (Inr response)
      with AwaitGemini lt have "step env skipCache repos st i = classified env i (repos ! i) response st"
        by (simp add: step_def)
      with lt AwaitGemini Inr show ?thesis by (intro assms(5)) simp_all
    qed
  next
    case (AwaitSave result tokens)
    show ?thesis
    proof (cases "writeFails env i")
      case True
      with AwaitSave lt have "step env skipCache repos st i =
            catchBlock env i (repos ! i)
              (cacheWriteError (getAnalysisPath (full_name (AnalysisResult.repo result)))) st"
        by (simp add: step_def saveAnalysis_def)
      with lt AwaitSave True show ?thesis by (intro assms(8)) simp_all
    next
      case False
      with AwaitSave lt have "step env skipCache repos st i =
            saved env i (repos ! i) result tokens
              (st\<lparr>files := (files st)(getAnalysisPath (full_name (AnalysisResult.repo result))
                        \<mapsto> Stored result)\<rparr>)"
        by (simp add: step_def saveAnalysis_def)
      with lt AwaitSave False show ?thesis by (intro assms(7)) simp_all
    qed
  next
    case (Resolved result)
    with lt have "step env skipCache repos st i =
            st\<lparr>results := results st @ [result], tasks := (tasks st)[i := Finished result]\<rparr>"
      by (simp add: step_def)
    with lt Resolved show ?thesis by (intro assms(9)) simp_all
  next
    case (Finished result)
    with lt have "step env skipCache repos st i = st" by (simp add: step_def)
    with Finished show ?thesis by (intro assms(1)) blast+
  qed
qed

lemma analyzeAll_snoc:
  "analyzeAll env repos skipCache (schedule @ [i]) s fs =
     step env skipCache repos (analyzeAll env repos skipCache schedule s fs) i"
  by (simp add: analyzeAll_def)

lemma analyzeAll_Nil:
  "analyzeAll env repos skipCache [] s fs = startAnalyzeAll repos s fs"
  by (simp add: analyzeAll_def)

lemma analyzeAll_invariant:
  assumes "P (startAnalyzeAll repos s fs)"
    and "\<And>st i. P st \<Longrightarrow> P (step env skipCache repos st i)"
  shows "P (analyzeAll env repos skipCache schedule s fs)"
proof (induction schedule rule: rev_induct)
  case Nil
  show ?case using assms(1) by (simp add: analyzeAll_Nil)
next
  case (snoc i schedule)
  then show ?case unfolding analyzeAll_snoc by (rule assms(2))
qed

section \<open>Progress events\<close>

lemma filter_update_count:
  "i < length xs \<Longrightarrow>
     length (filter P (xs[i := y])) + (if P (xs ! i) then 1 else 0)
       = length (filter P xs) + (if P y then 1 else 0)"
proof (induction xs arbitrary: i)
  case Nil
  then show ?case by simp
next
  case (Cons x xs)
  show ?case
  proof (cases i)
    case 0
    then show ?thesis by simp
  next
    case (Suc j)
    with Cons.prems have "j < length xs" by simp
    from Cons.IH [OF this] Suc show ?thesis by simp
  qed
qed

lemma count_same:
  "i < length xs \<Longrightarrow> P (xs ! i) = P y \<Longrightarrow>
     length (filter P (xs[i := y])) = length (filter P xs)"
  using filter_update_count [of i xs P y] by (simp split: if_splits)

lemma count_gain:
  "i < length xs \<Longrightarrow> \<not> P (xs ! i) \<Longrightarrow> P y \<Longrightarrow>
     length (filter P (xs[i := y])) = Suc (length (filter P xs))"
  using filter_update_count [of i xs P y] by simp

lemma tasks_length_step:
  "length (tasks (step env skipCache repos st i)) = length (tasks st)"
  by (cases rule: step_cases [of env skipCache repos st i])
     (simp_all add: callGemini_fields cacheHit_fields cacheHit_other_fields classified_fields
        catchBlock_fields saved_fields)

lemma tasks_length:
  "length (tasks (analyzeAll env repos skipCache schedule s fs)) = length repos"
  by (rule analyzeAll_invariant) (simp_all add: startAnalyzeAll_def tasks_length_step)

lemma allFinished_settled:
  assumes "allFinished st"
  shows "filter isSettled (tasks st) = tasks st" "filter isCounted (tasks st) = tasks st"
proof -
  have "\<And>t. isFinished t \<Longrightarrow> isSettled t \<and> isCounted t"
    by (case_tac t) simp_all
  with assms have "\<forall>t \<in> set (tasks st). isSettled t \<and> isCounted t"
    by (auto simp: allFinished_def list_all_iff)
  then show "filter isSettled (tasks st) = tasks st" "filter isCounted (tasks st) = tasks st"
    by (simp_all add: filter_id_conv)
qed

lemma settledNames_same:
  assumes "i < length ts" "isSettled (ts ! i) = isSettled t"
  shows "settledNames repos (ts[i := t]) = settledNames repos ts"
proof -
  have "{j. j < length (ts[i := t]) \<and> isSettled (ts[i := t] ! j)}
      = {j. j < length ts \<and> isSettled (ts ! j)}"
    using assms by (auto simp: nth_list_update)
  then show ?thesis by (simp add: settledNames_def)
qed

lemma settledNames_gain:
  assumes "i < length ts" "\<not> isSettled (ts ! i)" "isSettled t"
  shows "settledNames repos (ts[i := t]) = add_mset (full_name (repos ! i)) (settledNames repos ts)"
proof -
  let ?S = "{j. j < length ts \<and> isSettled (ts ! j)}"
  have "{j. j < length (ts[i := t]) \<and> isSettled (ts[i := t] ! j)} = insert i ?S"
    using assms by (auto simp: nth_list_update)
  moreover have "finite ?S" by simp
  moreover have "i \<notin> ?S" using assms(2) by simp
  ultimately show ?thesis by (simp add: settledNames_def)
qed

lemma settledNames_all:
  assumes "list_all isSettled ts" "length ts = length repos"
  shows "settledNames repos ts = mset (map full_name repos)"
proof -
  from assms(1) have "{j. j < length ts \<and> isSettled (ts ! j)} = {0 ..< length ts}"
    by (auto simp: list_all_length)
  then have "settledNames repos ts = image_mset (\<lambda>i. full_name (repos ! i)) (mset [0 ..< length repos])"
    using assms(2) by (simp add: settledNames_def)
  also have "\<dots> = mset (map (\<lambda>i. full_name (repos ! i)) [0 ..< length repos])" by simp
  also have "map (\<lambda>i. full_name (repos ! i)) [0 ..< length repos] = map full_name repos"
    by (rule nth_equalityI) simp_all
  finally show ?thesis .
qed

lemma wellFormed_update: "wellFormed fs \<Longrightarrow> wellFormed (fs(p \<mapsto> Stored r))"
  by (simp add: wellFormed_def)

lemma settledNames_start: "settledNames repos (replicate n Queued) = {#}"
proof -
  have e: "{i. i < length (replicate n Queued) \<and> isSettled (replicate n Queued ! i)} = {}" by auto
  show ?thesis unfolding settledNames_def e by simp
qed

lemma progressInv_start: "wellFormed fs \<Longrightarrow> progressInv repos (startAnalyzeAll repos s fs)"
  by (simp add: progressInv_def startAnalyzeAll_def settledNames_start)

lemma progressInv_step:
  assumes "progressInv repos st"
  shows "progressInv repos (step env skipCache repos st i)"
proof (cases rule: step_cases [of env skipCache repos st i])
  case idle
  with assms show ?thesis by simp
next
  case toCache
  with assms show ?thesis by (simp add: progressInv_def count_same settledNames_same)
next
  case call
  then have "\<not> isSettled (tasks st ! i)" by auto
  with call assms show ?thesis
    by (simp add: progressInv_def callGemini_fields count_same settledNames_same)
next
  case (hit c)
  with assms show ?thesis
    by (simp add: progressInv_def cacheHit_fields count_gain settledNames_gain)
next
  case (classified response)
  with assms show ?thesis
    by (simp add: progressInv_def classified_fields count_same settledNames_same)
next
  case (failed err)
  with assms show ?thesis
    by (simp add: progressInv_def catchBlock_fields count_gain settledNames_gain)
next
  case (saved result tokens)
  with assms show ?thesis
    by (simp add: progressInv_def saved_fields count_gain settledNames_gain wellFormed_update)
next
  case (saveFailed result tokens)
  with assms show ?thesis
    by (simp add: progressInv_def catchBlock_fields count_gain settledNames_gain)
next
  case (push result)
  with assms show ?thesis by (simp add: progressInv_def count_same settledNames_same)
next
  case hitOther
  with assms show ?thesis by (simp add: progressInv_def wellFormed_def)
qed

lemma progressInv_run:
  "wellFormed fs \<Longrightarrow> progressInv repos (analyzeAll env repos skipCache schedule s fs)"
  by (rule analyzeAll_invariant) (simp_all add: progressInv_start progressInv_step)

section \<open>Every task finishes\<close>

lemma step_other_task:
  "j \<noteq> i \<Longrightarrow> tasks (step env skipCache repos st i) ! j = tasks st ! j"
  by (cases rule: step_cases [of env skipCache repos st i])
     (simp_all add: callGemini_fields cacheHit_fields cacheHit_other_fields classified_fields
        catchBlock_fields saved_fields)

lemma step_own_task:
  assumes "i < length repos" "i < length (tasks st)"
  shows "stepsLeft (tasks (step env skipCache repos st i) ! i) \<le> stepsLeft (tasks st ! i) - 1"
proof (cases rule: step_cases [of env skipCache repos st i])
  case idle
  with assms show ?thesis by auto
next
  case toCache
  then show ?thesis by simp
next
  case call
  then show ?thesis by (auto simp: callGemini_fields)
next
  case (hit c)
  then show ?thesis by (simp add: cacheHit_fields)
next
  case (classified response)
  then show ?thesis by (simp add: classified_fields)
next
  case (failed err)
  then show ?thesis by (simp add: catchBlock_fields)
next
  case (saved result tokens)
  then show ?thesis by (simp add: saved_fields)
next
  case (saveFailed result tokens)
  then show ?thesis by (simp add: catchBlock_fields)
next
  case (push result)
  then show ?thesis by simp
next
  case hitOther
  then show ?thesis by (simp add: cacheHit_other_fields)
qed

lemma stepsLeft_run:
  "i < length repos \<Longrightarrow>
     stepsLeft (tasks (analyzeAll env repos skipCache schedule s fs) ! i) \<le> 5 - count_list schedule i"
proof (induction schedule rule: rev_induct)
  case Nil
  then show ?case by (simp add: analyzeAll_Nil startAnalyzeAll_def)
next
  case (snoc k schedule)
  let ?st = "analyzeAll env repos skipCache schedule s fs"
  show ?case
  proof (cases "k = i")
    case True
    have "stepsLeft (tasks (step env skipCache repos ?st i) ! i) \<le> stepsLeft (tasks ?st ! i) - 1"
      using snoc.prems by (intro step_own_task) (simp_all add: tasks_length)
    with snoc True show ?thesis by (simp add: analyzeAll_snoc)
  next
    case False
    then have "tasks (step env skipCache repos ?st k) ! i = tasks ?st ! i"
      by (intro step_other_task) simp
    with snoc False show ?thesis by (simp add: analyzeAll_snoc)
  qed
qed

lemma analyzeAll_completes:
  assumes "\<forall>i < length repos. 5 \<le> count_list schedule i"
  shows "allFinished (analyzeAll env repos skipCache schedule s fs)"
proof -
  let ?st = "analyzeAll env repos skipCache schedule s fs"
  have "\<forall>i < length (tasks ?st). isFinished (tasks ?st ! i)"
  proof (intro allI impI)
    fix i assume "i < length (tasks ?st)"
    then have i: "i < length repos" by (simp add: tasks_length)
    with assms stepsLeft_run [OF i, of env skipCache schedule s fs]
    have "stepsLeft (tasks ?st ! i) = 0" by simp
    then show "isFinished (tasks ?st ! i)" by (cases "tasks ?st ! i") simp_all
  qed
  then show ?thesis by (simp add: allFinished_def list_all_length)
qed

section \<open>Progress events of a completed run\<close>

text \<open>
  On a cache whose readable files are records, in every interleaving: once
  \<open>analyzeAll\<close> has completed, the callback has been called once for each item of the
  batch, failed or not, and the \<open>k\<close>-th call (from 0) carries \<open>current = k + 1\<close>.
\<close>

lemma progress_on_wellFormed_cache:
  assumes "wellFormed fs"
    and "allFinished (analyzeAll env repos skipCache schedule s fs)"
  shows "length (progressLog (analyzeAll env repos skipCache schedule s fs)) = length repos"
    and "\<forall>k < length repos.
            current (progressLog (analyzeAll env repos skipCache schedule s fs) ! k) = k + 1"
    and "mset (map AnalyzerProgress.repo (progressLog (analyzeAll env repos skipCache schedule s fs)))
           = mset (map full_name repos)"
proof -
  let ?st = "analyzeAll env repos skipCache schedule s fs"
  have inv: "progressInv repos ?st" using assms(1) by (rule progressInv_run)
  have all: "filter isSettled (tasks ?st) = tasks ?st" by (rule allFinished_settled(1) [OF assms(2)])
  from inv all have c: "completed ?st = length repos" by (simp add: progressInv_def tasks_length)
  have m: "map current (progressLog ?st) = [1 ..< Suc (length repos)]"
    using inv c by (simp add: progressInv_def)
  have "length (progressLog ?st) = length (map current (progressLog ?st))" by simp
  also have "\<dots> = length [1 ..< Suc (length repos)]" unfolding m ..
  also have "\<dots> = length repos" by (simp del: upt_Suc)
  finally show l: "length (progressLog ?st) = length repos" .
  show "\<forall>k < length repos. current (progressLog ?st ! k) = k + 1"
  proof (intro allI impI)
    fix k assume k: "k < length repos"
    then have "current (progressLog ?st ! k) = map current (progressLog ?st) ! k"
      using l by simp
    also have "\<dots> = [1 ..< Suc (length repos)] ! k" using m by simp
    also have "\<dots> = k + 1" using k by (simp add: nth_upt del: upt_Suc)
    finally show "current (progressLog ?st ! k) = k + 1" .
  qed
  from all have "list_all isSettled (tasks ?st)"
    by (metis filter_id_conv list_all_iff)
  then have "settledNames repos (tasks ?st) = mset (map full_name repos)"
    by (rule settledNames_all) (simp add: tasks_length)
  with inv show "mset (map AnalyzerProgress.repo (progressLog ?st)) = mset (map full_name repos)"
    by (simp add: progressInv_def)
qed

text \<open>The same for every schedule that gives each task its turns: such a run completes.\<close>

lemma progress_on_wellFormed_cache_fair:
  assumes "wellFormed fs"
    and "\<forall>i < length repos. 5 \<le> count_list schedule i"
  shows "allFinished (analyzeAll env repos skipCache schedule s fs)
       \<and> map current (progressLog (analyzeAll env repos skipCache schedule s fs))
           = [1 ..< Suc (length repos)]
       \<and> mset (map AnalyzerProgress.repo (progressLog (analyzeAll env repos skipCache schedule s fs)))
           = mset (map full_name repos)"
proof -
  let ?st = "analyzeAll env repos skipCache schedule s fs"
  have f: "allFinished ?st" using assms(2) by (rule analyzeAll_completes)
  from progress_on_wellFormed_cache(1,2) [OF assms(1) f]
  have "map current (progressLog ?st) = [1 ..< Suc (length repos)]"
    by (intro nth_equalityI) (simp_all add: nth_upt del: upt_Suc)
  with f progress_on_wellFormed_cache(3) [OF assms(1) f] show ?thesis by simp
qed

text \<open>
  C9. The claim: for a batch of N items the progress callback is called exactly once
  per item and \<open>current\<close> never exceeds N. The code: the cache hit increments
  \<open>completed\<close> before it builds the argument of the callback, and building it throws
  when the cached value has no \<open>categorization\<close>; the \<open>catch\<close> block increments
  \<open>completed\<close> again. One item whose cache file holds \<open>null\<close>: the run completes
  without a call of the classifier, and the only call of the callback carries
  \<open>current = 2\<close> of \<open>total = 1\<close>; the item is counted as cached and as failed.
\<close>

theorem progress_current_exceeds_total:
  "allFinished nullEntryRun
   \<and> progressLog nullEntryRun =
       [\<lparr>current = 2, AnalyzerProgress.total = 1, AnalyzerProgress.repo = js ''a/b'',
         AnalyzerProgress.cached = False, AnalyzerProgress.category = None,
         AnalyzerProgress.confidence = None, elapsedMs = None,
         AnalyzerProgress.tokensUsed = None\<rparr>]
   \<and> stats nullEntryRun =
       \<lparr>AnalyzerStats.total = 1, analyzed = 0, cached = 1, failed = 1,
        totalTokens = 0, totalWebSearches = 0\<rparr>
   \<and> geminiCalls nullEntryRun = []"
proof -
  have f: "allFinished nullEntryRun"
    unfolding nullEntryRun_def by (rule analyzeAll_completes) simp
  have p: "getAnalysis cacheWithNull (js ''a/b'') = Some CachedOther"
    by (simp add: getAnalysis_def cacheWithNull_def)
  have r: "full_name repoA = js ''a/b''" by (simp add: repoA_def)
  have "progressLog nullEntryRun =
       [\<lparr>current = 2, AnalyzerProgress.total = 1, AnalyzerProgress.repo = js ''a/b'',
         AnalyzerProgress.cached = False, AnalyzerProgress.category = None,
         AnalyzerProgress.confidence = None, elapsedMs = None,
         AnalyzerProgress.tokensUsed = None\<rparr>]
   \<and> stats nullEntryRun =
       \<lparr>AnalyzerStats.total = 1, analyzed = 0, cached = 1, failed = 1,
        totalTokens = 0, totalWebSearches = 0\<rparr>
   \<and> geminiCalls nullEntryRun = []"
    by (simp add: nullEntryRun_def analyzeAll_def startAnalyzeAll_def step_def initialStats_def
        p r cacheHit_def catchBlock_def onProgress_def Let_def)
  with f show ?thesis by simp
qed

section \<open>Statistics\<close>

lemma outcomes_simps:
  "outcomes (s\<lparr>analyzed := a\<rparr>) = a + AnalyzerStats.cached s + AnalyzerStats.failed s"
  "outcomes (s\<lparr>AnalyzerStats.cached := c\<rparr>) = analyzed s + c + AnalyzerStats.failed s"
  "outcomes (s\<lparr>AnalyzerStats.failed := f\<rparr>) = analyzed s + AnalyzerStats.cached s + f"
  "outcomes (s\<lparr>totalTokens := t\<rparr>) = outcomes s"
  "outcomes (s\<lparr>totalWebSearches := w\<rparr>) = outcomes s"
  "outcomes (s\<lparr>AnalyzerStats.total := n\<rparr>) = outcomes s"
  by (simp_all add: outcomes_def)

lemma statsInv_start: "statsInv repos s (startAnalyzeAll repos s fs)"
  by (simp add: statsInv_def startAnalyzeAll_def outcomes_simps)

lemma statsInv_step:
  assumes "statsInv repos s st"
  shows "statsInv repos s (step env skipCache repos st i)"
proof (cases rule: step_cases [of env skipCache repos st i])
  case idle
  with assms show ?thesis by simp
next
  case toCache
  with assms show ?thesis by (simp add: statsInv_def count_same)
next
  case call
  then have "\<not> isCounted (tasks st ! i)" by auto
  with call assms show ?thesis by (simp add: statsInv_def callGemini_fields count_same)
next
  case (hit c)
  with assms show ?thesis
    by (simp add: statsInv_def cacheHit_fields count_gain outcomes_simps) (simp add: outcomes_def)
next
  case (classified response)
  with assms show ?thesis
    by (simp add: statsInv_def classified_fields count_gain outcomes_simps) (simp add: outcomes_def)
next
  case (failed err)
  with assms show ?thesis
    by (simp add: statsInv_def catchBlock_fields count_gain outcomes_simps) (simp add: outcomes_def)
next
  case (saved result tokens)
  with assms show ?thesis by (simp add: statsInv_def saved_fields count_same)
next
  case (saveFailed result tokens)
  with assms show ?thesis
    by (simp add: statsInv_def catchBlock_fields count_same outcomes_simps) (simp add: outcomes_def)
next
  case (push result)
  with assms show ?thesis by (simp add: statsInv_def count_same)
next
  case hitOther
  with assms show ?thesis
    by (simp add: statsInv_def cacheHit_other_fields count_gain outcomes_simps)
       (simp add: outcomes_def)
qed

lemma statsInv_run: "statsInv repos s (analyzeAll env repos skipCache schedule s fs)"
  by (rule analyzeAll_invariant) (simp_all add: statsInv_start statsInv_step)

lemma statsExact_start: "wellFormed fs \<Longrightarrow> statsExact s (startAnalyzeAll repos s fs)"
  by (simp add: statsExact_def startAnalyzeAll_def outcomes_simps)

lemma statsExact_step:
  assumes "statsExact s st" "\<forall>i. \<not> writeFails env i"
  shows "statsExact s (step env skipCache repos st i)"
proof (cases rule: step_cases [of env skipCache repos st i])
  case idle
  with assms show ?thesis by simp
next
  case toCache
  with assms show ?thesis by (simp add: statsExact_def count_same)
next
  case call
  then have "\<not> isCounted (tasks st ! i)" by auto
  with call assms show ?thesis by (simp add: statsExact_def callGemini_fields count_same)
next
  case (hit c)
  with assms show ?thesis
    by (simp add: statsExact_def cacheHit_fields count_gain outcomes_simps) (simp add: outcomes_def)
next
  case (classified response)
  with assms show ?thesis
    by (simp add: statsExact_def classified_fields count_gain outcomes_simps) (simp add: outcomes_def)
next
  case (failed err)
  with assms show ?thesis
    by (simp add: statsExact_def catchBlock_fields count_gain outcomes_simps) (simp add: outcomes_def)
next
  case (saved result tokens)
  with assms show ?thesis
    by (simp add: statsExact_def saved_fields count_same wellFormed_update)
next
  case (saveFailed result tokens)
  with assms show ?thesis by simp
next
  case (push result)
  with assms show ?thesis by (simp add: statsExact_def count_same)
next
  case hitOther
  with assms show ?thesis by (simp add: statsExact_def wellFormed_def)
qed

lemma statsExact_run:
  assumes "\<forall>i. \<not> writeFails env i" "wellFormed fs"
  shows "statsExact s (analyzeAll env repos skipCache schedule s fs)"
  by (rule analyzeAll_invariant) (simp_all add: statsExact_start statsExact_step assms)

text \<open>
  When no cache write fails and the readable files of the cache are records, the three
  outcome counters partition the items of a completed run on fresh statistics.
\<close>

lemma stats_partition_when_writes_succeed:
  assumes "\<forall>i. \<not> writeFails env i" "wellFormed fs"
    and "allFinished (analyzeAll env repos skipCache schedule initialStats fs)"
  shows "AnalyzerStats.total (stats (analyzeAll env repos skipCache schedule initialStats fs))
       = outcomes (stats (analyzeAll env repos skipCache schedule initialStats fs))"
proof -
  let ?st = "analyzeAll env repos skipCache schedule initialStats fs"
  have "outcomes (stats ?st) = outcomes initialStats + length (tasks ?st)"
    using statsExact_run [OF assms(1,2), of initialStats repos skipCache schedule]
      allFinished_settled(2) [OF assms(3)]
    by (simp add: statsExact_def)
  moreover have "AnalyzerStats.total (stats ?st) = length repos"
    using statsInv_run [of repos initialStats env skipCache schedule fs] by (simp add: statsInv_def)
  ultimately show ?thesis by (simp add: tasks_length outcomes_def initialStats_def)
qed

text \<open>
  C10. A second call of \<open>analyzeAll\<close> on the same service, with no \<open>resetStats\<close> in
  between, starts from the statistics and the cache the first call left. It overwrites
  \<open>total\<close> with the size of the new batch; \<open>analyzed\<close>, \<open>cached\<close>, \<open>failed\<close>,
  \<open>totalTokens\<close> and \<open>totalWebSearches\<close> are not reset, they only grow, and the three
  outcome counters together grow by at least the size of the new batch. So after the
  second call \<open>total\<close> differs from \<open>analyzed + cached + failed\<close>, whenever the first
  batch was not empty.
\<close>

theorem stats_accumulate_across_calls:
  assumes "allFinished (analyzeAll env1 repos1 skip1 schedule1 s fs)"
    and "allFinished
           (analyzeAll env2 repos2 skip2 schedule2
              (stats (analyzeAll env1 repos1 skip1 schedule1 s fs))
              (files (analyzeAll env1 repos1 skip1 schedule1 s fs)))"
    and "repos1 \<noteq> []"
  shows "AnalyzerStats.total (stats (analyzeAll env2 repos2 skip2 schedule2
              (stats (analyzeAll env1 repos1 skip1 schedule1 s fs))
              (files (analyzeAll env1 repos1 skip1 schedule1 s fs)))) = length repos2
       \<and> outcomes (stats (analyzeAll env1 repos1 skip1 schedule1 s fs)) + length repos2
           \<le> outcomes (stats (analyzeAll env2 repos2 skip2 schedule2
              (stats (analyzeAll env1 repos1 skip1 schedule1 s fs))
              (files (analyzeAll env1 repos1 skip1 schedule1 s fs))))
       \<and> analyzed (stats (analyzeAll env1 repos1 skip1 schedule1 s fs))
           \<le> analyzed (stats (analyzeAll env2 repos2 skip2 schedule2
              (stats (analyzeAll env1 repos1 skip1 schedule1 s fs))
              (files (analyzeAll env1 repos1 skip1 schedule1 s fs))))
       \<and> AnalyzerStats.cached (stats (analyzeAll env1 repos1 skip1 schedule1 s fs))
           \<le> AnalyzerStats.cached (stats (analyzeAll env2 repos2 skip2 schedule2
              (stats (analyzeAll env1 repos1 skip1 schedule1 s fs))
              (files (analyzeAll env1 repos1 skip1 schedule1 s fs))))
       \<and> AnalyzerStats.failed (stats (analyzeAll env1 repos1 skip1 schedule1 s fs))
           \<le> AnalyzerStats.failed (stats (analyzeAll env2 repos2 skip2 schedule2
              (stats (analyzeAll env1 repos1 skip1 schedule1 s fs))
              (files (analyzeAll env1 repos1 skip1 schedule1 s fs))))
       \<and> totalTokens (stats (analyzeAll env1 repos1 skip1 schedule1 s fs))
           \<le> totalTokens (stats (analyzeAll env2 repos2 skip2 schedule2
              (stats (analyzeAll env1 repos1 skip1 schedule1 s fs))
              (files (analyzeAll env1 repos1 skip1 schedule1 s fs))))
       \<and> totalWebSearches (stats (analyzeAll env1 repos1 skip1 schedule1 s fs))
           \<le> totalWebSearches (stats (analyzeAll env2 repos2 skip2 schedule2
              (stats (analyzeAll env1 repos1 skip1 schedule1 s fs))
              (files (analyzeAll env1 repos1 skip1 schedule1 s fs))))
       \<and> AnalyzerStats.total (stats (analyzeAll env2 repos2 skip2 schedule2
              (stats (analyzeAll env1 repos1 skip1 schedule1 s fs))
              (files (analyzeAll env1 repos1 skip1 schedule1 s fs))))
           \<noteq> outcomes (stats (analyzeAll env2 repos2 skip2 schedule2
              (stats (analyzeAll env1 repos1 skip1 schedule1 s fs))
              (files (analyzeAll env1 repos1 skip1 schedule1 s fs))))"
proof -
  let ?st1 = "analyzeAll env1 repos1 skip1 schedule1 s fs"
  let ?st2 = "analyzeAll env2 repos2 skip2 schedule2 (stats ?st1) (files ?st1)"
  have i1: "statsInv repos1 s ?st1" by (rule statsInv_run)
  have i2: "statsInv repos2 (stats ?st1) ?st2" by (rule statsInv_run)
  have c1: "length (filter isCounted (tasks ?st1)) = length repos1"
    using allFinished_settled(2) [OF assms(1)] by (simp add: tasks_length)
  have c2: "length (filter isCounted (tasks ?st2)) = length repos2"
    using allFinished_settled(2) [OF assms(2)] by (simp add: tasks_length)
  from assms(3) have "0 < length repos1" by simp
  moreover from i1 c1 have "outcomes s + length repos1 \<le> outcomes (stats ?st1)"
    by (simp add: statsInv_def)
  ultimately have pos: "0 < outcomes (stats ?st1)" by linarith
  from i2 c2 have grow: "outcomes (stats ?st1) + length repos2 \<le> outcomes (stats ?st2)"
    by (simp add: statsInv_def)
  from i2 have tot: "AnalyzerStats.total (stats ?st2) = length repos2" by (simp add: statsInv_def)
  from pos grow tot have ne: "AnalyzerStats.total (stats ?st2) \<noteq> outcomes (stats ?st2)" by simp
  from i2 tot grow ne show ?thesis by (simp add: statsInv_def)
qed

section \<open>Concrete runs\<close>

theorem stats_accumulate_across_calls_witness:
  "AnalyzerStats.total (stats secondRun) = 1
   \<and> 2 \<le> outcomes (stats secondRun)
   \<and> AnalyzerStats.total (stats secondRun) \<noteq> outcomes (stats secondRun)"
proof -
  have f1: "allFinished (analyzeAll envOk [repoA] False [0, 0, 0, 0, 0] initialStats Map.empty)"
    by (rule analyzeAll_completes) simp
  have f2: "allFinished (analyzeAll envOk [repoA] False [0, 0, 0, 0, 0]
      (stats (analyzeAll envOk [repoA] False [0, 0, 0, 0, 0] initialStats Map.empty))
      (files (analyzeAll envOk [repoA] False [0, 0, 0, 0, 0] initialStats Map.empty)))"
    by (rule analyzeAll_completes) simp
  have ne: "[repoA] \<noteq> []" by simp
  have o1: "1 \<le> outcomes (stats firstRun)"
    using statsInv_run [of "[repoA]" initialStats envOk False "[0, 0, 0, 0, 0]" Map.empty]
      allFinished_settled(2) [OF f1]
    by (simp add: statsInv_def firstRun_def tasks_length)
  from stats_accumulate_across_calls [OF f1 f2 ne] o1 show ?thesis
    unfolding secondRun_def firstRun_def by simp
qed

text \<open>
  C3. The claim: after a call on fresh statistics every item has exactly one of the
  outcomes cached, analyzed and failed, and \<open>total = analyzed + cached + failed\<close>. The
  code: \<open>analyzed\<close> is incremented before the cache write, and a write that fails is
  caught by the same \<open>catch\<close> block as a failed classification, which increments
  \<open>failed\<close>. An item that was classified and whose record could not be written is
  counted twice: one item, \<open>analyzed = 1\<close> and \<open>failed = 1\<close>.
\<close>

theorem write_failure_counted_twice:
  "allFinished writeFailureRun
   \<and> stats writeFailureRun =
       \<lparr>AnalyzerStats.total = 1, analyzed = 1, cached = 0, failed = 1,
        totalTokens = 100, totalWebSearches = 1\<rparr>
   \<and> AnalyzerStats.total (stats writeFailureRun) \<noteq> outcomes (stats writeFailureRun)"
proof -
  have f: "allFinished writeFailureRun"
    unfolding writeFailureRun_def by (rule analyzeAll_completes) simp
  have s: "stats writeFailureRun =
       \<lparr>AnalyzerStats.total = 1, analyzed = 1, cached = 0, failed = 1,
        totalTokens = 100, totalWebSearches = 1\<rparr>"
    by (simp add: writeFailureRun_def analyzeAll_def startAnalyzeAll_def step_def initialStats_def
        envWriteFails_def getAnalysis_def saveAnalysis_def callGemini_def classified_def
        catchBlock_def onProgress_def Let_def okResponse_def)
  from f s show ?thesis by (simp add: outcomes_def)
qed

section \<open>Provenance of the records\<close>

lemma tasksSatisfy_update:
  "tasksSatisfy Q ts \<Longrightarrow> Q i y \<Longrightarrow> tasksSatisfy Q (ts[i := y])"
  by (cases "i < length ts") (auto simp: tasksSatisfy_def nth_list_update)

lemma tasksSatisfy_nth:
  "tasksSatisfy Q ts \<Longrightarrow> i < length ts \<Longrightarrow> Q i (ts ! i)"
  by (simp add: tasksSatisfy_def)

lemma tasksSatisfy_replicate:
  "(\<And>i. Q i t) \<Longrightarrow> tasksSatisfy Q (replicate n t)"
  by (simp add: tasksSatisfy_def)

lemma getAnalysis_Some:
  "getAnalysis fs nm = Some (CachedRecord c) \<longleftrightarrow>
     (\<exists>r0. fs (getAnalysisPath nm) = Some (Stored r0) \<and> c = r0\<lparr>AnalysisResult.cached := True\<rparr>)"
  by (auto simp: getAnalysis_def split: option.splits cache_file.splits)

lemma isFresh_repo: "isFresh env repos i r \<Longrightarrow> AnalysisResult.repo r = repos ! i"
  by (auto simp: isFresh_def freshRecord_def split: sum.splits)

lemma isFresh_flags:
  "isFresh env repos i r \<Longrightarrow> \<not> AnalysisResult.cached r \<and> AnalysisResult.failed r = None"
  by (auto simp: isFresh_def freshRecord_def split: sum.splits)

lemma isFresh_outcome:
  "isFresh env repos i r \<Longrightarrow> \<exists>response. categorizeOutcome env i = Inr response"
  by (auto simp: isFresh_def split: sum.splits)

lemma isFailedClassification_flags:
  "isFailedClassification env repos i r \<Longrightarrow>
     \<not> AnalysisResult.cached r \<and> AnalysisResult.failed r = Some True \<and>
     CategorizationResult.category (AnalysisResult.categorization r) = js ''Uncategorized''"
  by (auto simp: isFailedClassification_def degradedRecord_def split: sum.splits)

lemma isDegraded_flags:
  "isDegraded env repos fs0 i r \<Longrightarrow>
     \<not> AnalysisResult.cached r \<and> AnalysisResult.failed r = Some True \<and>
     CategorizationResult.category (AnalysisResult.categorization r) = js ''Uncategorized''"
  using isFailedClassification_flags [of env repos i r]
  by (auto simp: isDegraded_def isFailedHit_def degradedRecord_def)

lemma isHit_flags: "isHit env repos fs0 i r \<Longrightarrow> AnalysisResult.cached r"
  by (auto simp: isHit_def)

lemma provenanceInv_start: "provenanceInv env repos fs0 (startAnalyzeAll repos s fs0)"
  by (simp add: provenanceInv_def startAnalyzeAll_def tasksSatisfy_replicate filesProvenance_def)

lemma provenanceInv_step:
  assumes "provenanceInv env repos fs0 st"
  shows "provenanceInv env repos fs0 (step env skipCache repos st i)"
proof -
  from assms have len: "length (tasks st) = length repos"
    and ts: "tasksSatisfy (taskProvenance env repos fs0) (tasks st)"
    and fp: "filesProvenance env repos fs0 (files st)"
    by (simp_all add: provenanceInv_def)
  show ?thesis
  proof (cases rule: step_cases [of env skipCache repos st i])
    case idle
    with assms show ?thesis by simp
  next
    case toCache
    with len ts fp show ?thesis by (simp add: provenanceInv_def tasksSatisfy_update)
  next
    case call
    with len ts fp show ?thesis
      by (simp add: provenanceInv_def callGemini_fields tasksSatisfy_update)
  next
    case (hit c)
    from fp hit(4) have "fs0 (getAnalysisPath (full_name (repos ! i))) = Some (Stored c)
        \<or> (\<exists>j < length repos. getAnalysisPath (full_name (repos ! j)) = getAnalysisPath (full_name (repos ! i))
              \<and> isFresh env repos j c \<and> \<not> writeFails env j)"
      unfolding filesProvenance_def by (metis cache_file.inject option.inject)
    then have "isHit env repos fs0 i (c\<lparr>AnalysisResult.cached := True\<rparr>)"
      unfolding isHit_def by blast
    with hit len ts fp show ?thesis
      by (simp add: provenanceInv_def cacheHit_fields tasksSatisfy_update)
  next
    case (classified response)
    then have "isFresh env repos i (freshRecord env i (repos ! i) response)"
      by (simp add: isFresh_def)
    with classified len ts fp show ?thesis
      by (simp add: provenanceInv_def classified_fields tasksSatisfy_update)
  next
    case (failed err)
    then have "isDegraded env repos fs0 i (degradedRecord env i (repos ! i) (getErrorMessage err))"
      by (simp add: isDegraded_def isFailedClassification_def)
    with failed len ts fp show ?thesis
      by (simp add: provenanceInv_def catchBlock_fields tasksSatisfy_update)
  next
    case (saved result tokens)
    from tasksSatisfy_nth [OF ts saved(2)] saved(3) have fr: "isFresh env repos i result" by simp
    then have rp: "AnalysisResult.repo result = repos ! i" by (rule isFresh_repo)
    have "filesProvenance env repos fs0
        ((files st)(getAnalysisPath (full_name (AnalysisResult.repo result)) \<mapsto> Stored result))"
      unfolding filesProvenance_def
    proof
      fix p
      show "((files st)(getAnalysisPath (full_name (AnalysisResult.repo result)) \<mapsto> Stored result)) p = fs0 p \<or>
         (\<exists>j<length repos. p = getAnalysisPath (full_name (repos ! j)) \<and>
            (\<exists>r. ((files st)(getAnalysisPath (full_name (AnalysisResult.repo result)) \<mapsto> Stored result)) p
                  = Some (Stored r) \<and> isFresh env repos j r \<and> \<not> writeFails env j))"
      proof (cases "p = getAnalysisPath (full_name (repos ! i))")
        case True
        with fr rp saved(1,4) show ?thesis by auto
      next
        case False
        with rp fp show ?thesis unfolding filesProvenance_def by simp
      qed
    qed
    with saved len ts fr show ?thesis
      by (simp add: provenanceInv_def saved_fields tasksSatisfy_update)
  next
    case (saveFailed result tokens)
    from tasksSatisfy_nth [OF ts saveFailed(2)] saveFailed(3) have fr: "isFresh env repos i result" by simp
    then have rp: "AnalysisResult.repo result = repos ! i" by (rule isFresh_repo)
    from fr obtain response where "categorizeOutcome env i = Inr response"
      using isFresh_outcome by blast
    with saveFailed(4) rp have "isDegraded env repos fs0 i (degradedRecord env i (repos ! i)
        (getErrorMessage (cacheWriteError (getAnalysisPath (full_name (AnalysisResult.repo result))))))"
      by (simp add: isDegraded_def isFailedClassification_def)
    with saveFailed len ts fp show ?thesis
      by (simp add: provenanceInv_def catchBlock_fields tasksSatisfy_update)
  next
    case (push result)
    from tasksSatisfy_nth [OF ts push(2)] push(3)
    have "taskProvenance env repos fs0 i (Finished result)" by simp
    with push len ts fp show ?thesis
      by (simp add: provenanceInv_def tasksSatisfy_update)
  next
    case hitOther
    from fp hitOther(4) have "fs0 (getAnalysisPath (full_name (repos ! i))) = Some NoCategorization"
      unfolding filesProvenance_def by (metis cache_file.distinct(5) option.inject)
    then have "isDegraded env repos fs0 i
        (degradedRecord env i (repos ! i) (getErrorMessage categoryTypeError))"
      by (simp add: isDegraded_def isFailedHit_def)
    with hitOther len ts fp show ?thesis
      by (simp add: provenanceInv_def cacheHit_other_fields tasksSatisfy_update)
  qed
qed

lemma provenanceInv_run:
  "provenanceInv env repos fs0 (analyzeAll env repos skipCache schedule s fs0)"
  by (rule analyzeAll_invariant) (simp_all add: provenanceInv_start provenanceInv_step)

section \<open>The result list\<close>

lemma resultsInv_start: "resultsInv (startAnalyzeAll repos s fs)"
  by (simp add: resultsInv_def startAnalyzeAll_def)

lemma finished_kept:
  assumes "\<forall>r \<in> set rs. \<exists>k < length ts. ts ! k = Finished r"
    and "i < length ts" and "\<not> isFinished (ts ! i)"
  shows "\<forall>r \<in> set rs. \<exists>k < length (ts[i := y]). ts[i := y] ! k = Finished r"
proof
  fix r assume "r \<in> set rs"
  with assms(1) obtain k where k: "k < length ts" "ts ! k = Finished r" by blast
  with assms(3) have "k \<noteq> i" by auto
  with k assms(2) have "k < length (ts[i := y]) \<and> ts[i := y] ! k = Finished r" by simp
  then show "\<exists>k < length (ts[i := y]). ts[i := y] ! k = Finished r" by blast
qed

lemma finished_members_kept:
  assumes "\<forall>k < length ts. \<forall>r. ts ! k = Finished r \<longrightarrow> r \<in> set rs"
    and "i < length ts" and "\<not> isFinished y"
  shows "\<forall>k < length (ts[i := y]). \<forall>r. ts[i := y] ! k = Finished r \<longrightarrow> r \<in> set rs"
proof (intro allI impI)
  fix k r assume k: "k < length (ts[i := y])" and f: "ts[i := y] ! k = Finished r"
  with assms(3) have "k \<noteq> i" using assms(2) by auto
  with k f assms(1) show "r \<in> set rs" by simp
qed

lemma resultsInv_update:
  assumes "resultsInv st" "i < length (tasks st)" "\<not> isFinished (tasks st ! i)" "\<not> isFinished y"
    and "results st' = results st" "tasks st' = (tasks st)[i := y]"
  shows "resultsInv st'"
proof -
  from assms(1) have a: "\<forall>r \<in> set (results st). \<exists>k < length (tasks st). tasks st ! k = Finished r"
    and b: "\<forall>k < length (tasks st). \<forall>r. tasks st ! k = Finished r \<longrightarrow> r \<in> set (results st)"
    and c: "length (results st) = length (filter isFinished (tasks st))"
    by (simp_all add: resultsInv_def)
  from finished_kept [OF a assms(2,3)] finished_members_kept [OF b assms(2,4)] c assms
  show ?thesis by (simp add: resultsInv_def count_same)
qed

lemma resultsInv_step:
  assumes "resultsInv st"
  shows "resultsInv (step env skipCache repos st i)"
proof (cases rule: step_cases [of env skipCache repos st i])
  case idle
  with assms show ?thesis by simp
next
  case toCache
  with assms show ?thesis by - (rule resultsInv_update [of st i AwaitCache], simp_all)
next
  case call
  then have "\<not> isFinished (tasks st ! i)" by auto
  with call assms show ?thesis
    by - (rule resultsInv_update [of st i AwaitGemini], simp_all add: callGemini_fields)
next
  case (hit c)
  with assms show ?thesis
    by - (rule resultsInv_update [of st i "Resolved (c\<lparr>AnalysisResult.cached := True\<rparr>)"],
          simp_all add: cacheHit_fields)
next
  case hitOther
  with assms show ?thesis
    by - (rule resultsInv_update [of st i "Resolved (degradedRecord env i (repos ! i)
          (getErrorMessage categoryTypeError))"], simp_all add: cacheHit_other_fields)
next
  case (classified response)
  with assms show ?thesis
    by - (rule resultsInv_update [of st i "AwaitSave (freshRecord env i (repos ! i) response)
          (GeminiResponse.tokensUsed response)"], simp_all add: classified_fields)
next
  case (failed err)
  with assms show ?thesis
    by - (rule resultsInv_update [of st i "Resolved (degradedRecord env i (repos ! i) (getErrorMessage err))"], simp_all add: catchBlock_fields)
next
  case (saved result tokens)
  with assms show ?thesis
    by - (rule resultsInv_update [of st i "Resolved result"], simp_all add: saved_fields)
next
  case (saveFailed result tokens)
  with assms show ?thesis
    by - (rule resultsInv_update [of st i "Resolved (degradedRecord env i (repos ! i)
          (getErrorMessage (cacheWriteError (getAnalysisPath (full_name (AnalysisResult.repo result))))))"], simp_all add: catchBlock_fields)
next
  case (push result)
  from assms have a: "\<forall>r \<in> set (results st). \<exists>k < length (tasks st). tasks st ! k = Finished r"
    and b: "\<forall>k < length (tasks st). \<forall>r. tasks st ! k = Finished r \<longrightarrow> r \<in> set (results st)"
    and c: "length (results st) = length (filter isFinished (tasks st))"
    by (simp_all add: resultsInv_def)
  from push have nf: "\<not> isFinished (tasks st ! i)" by simp
  have 1: "\<forall>r \<in> set (results st @ [result]).
      \<exists>k < length ((tasks st)[i := Finished result]). (tasks st)[i := Finished result] ! k = Finished r"
  proof
    fix r assume "r \<in> set (results st @ [result])"
    then consider "r \<in> set (results st)" | "r = result" by auto
    then show "\<exists>k < length ((tasks st)[i := Finished result]). (tasks st)[i := Finished result] ! k = Finished r"
    proof cases
      case 1
      with finished_kept [OF a push(2) nf, of "Finished result"] show ?thesis by blast
    next
      case 2
      with push(2) have "i < length ((tasks st)[i := Finished result])
          \<and> (tasks st)[i := Finished result] ! i = Finished r" by simp
      then show ?thesis by blast
    qed
  qed
  have 2: "\<forall>k < length ((tasks st)[i := Finished result]). \<forall>r.
      (tasks st)[i := Finished result] ! k = Finished r \<longrightarrow> r \<in> set (results st @ [result])"
  proof (intro allI impI)
    fix k r assume k: "k < length ((tasks st)[i := Finished result])"
      and f: "(tasks st)[i := Finished result] ! k = Finished r"
    show "r \<in> set (results st @ [result])"
    proof (cases "k = i")
      case True
      with k f show ?thesis by simp
    next
      case False
      with k f b show ?thesis by simp
    qed
  qed
  have 3: "length (results st @ [result]) = length (filter isFinished ((tasks st)[i := Finished result]))"
    using c push(2) nf by (simp add: count_gain)
  from 1 2 3 push show ?thesis by (simp add: resultsInv_def)
qed

lemma resultsInv_run: "resultsInv (analyzeAll env repos skipCache schedule s fs)"
  by (rule analyzeAll_invariant) (simp_all add: resultsInv_start resultsInv_step)

section \<open>Classifier calls and failures\<close>

lemma callsInv_start: "callsInv env repos s (startAnalyzeAll repos s fs)"
  by (simp add: callsInv_def startAnalyzeAll_def)

lemma calls_update_same:
  assumes "\<forall>k \<in> set cs. k < length ts \<and> wasClassified env repos k (ts ! k)"
    and "i \<in> set cs \<Longrightarrow> wasClassified env repos i y"
  shows "\<forall>k \<in> set cs. k < length (ts[i := y]) \<and> wasClassified env repos k (ts[i := y] ! k)"
proof
  fix k assume k: "k \<in> set cs"
  with assms(1) have b: "k < length ts" "wasClassified env repos k (ts ! k)" by simp_all
  show "k < length (ts[i := y]) \<and> wasClassified env repos k (ts[i := y] ! k)"
  proof (cases "k = i")
    case True
    with k b assms(2) show ?thesis by simp
  next
    case False
    with b show ?thesis by simp
  qed
qed

lemma calls_update_new:
  assumes "\<forall>k \<in> set cs. k < length ts \<and> wasClassified env repos k (ts ! k)"
    and "i < length ts" and "wasClassified env repos i y"
  shows "\<forall>k \<in> set (cs @ [i]). k < length (ts[i := y]) \<and> wasClassified env repos k (ts[i := y] ! k)"
proof
  fix k assume k: "k \<in> set (cs @ [i])"
  show "k < length (ts[i := y]) \<and> wasClassified env repos k (ts[i := y] ! k)"
  proof (cases "k = i")
    case True
    with assms(2,3) show ?thesis by simp
  next
    case False
    with k have "k \<in> set cs" by simp
    with assms(1) False show ?thesis by simp
  qed
qed

lemma awaiting_update:
  assumes "\<forall>k < length ts. \<forall>r t. ts ! k = AwaitSave r t \<longrightarrow> isFresh env repos k r"
    and "\<And>r t. y = AwaitSave r t \<Longrightarrow> isFresh env repos i r"
  shows "\<forall>k < length (ts[i := y]). \<forall>r t. ts[i := y] ! k = AwaitSave r t \<longrightarrow> isFresh env repos k r"
proof (intro allI impI)
  fix k r t assume k: "k < length (ts[i := y])" and e: "ts[i := y] ! k = AwaitSave r t"
  show "isFresh env repos k r"
  proof (cases "k = i")
    case True
    with k e have "y = AwaitSave r t" by simp
    with True assms(2) show ?thesis by simp
  next
    case False
    with k e assms(1) show ?thesis by simp
  qed
qed

lemma not_called:
  assumes "\<forall>k \<in> set cs. k < length ts \<and> wasClassified env repos k (ts ! k)"
    and "ts ! i = Queued \<or> ts ! i = AwaitCache"
  shows "i \<notin> set cs"
  using assms by auto

lemma callsInv_update:
  assumes "callsInv env repos s st" "i < length (tasks st)"
    and "tasks st' = (tasks st)[i := y]"
    and "geminiCalls st' = geminiCalls st \<or>
         (geminiCalls st' = geminiCalls st @ [i] \<and> wasClassified env repos i y)"
    and "i \<in> set (geminiCalls st) \<Longrightarrow> wasClassified env repos i y"
    and "\<And>r t. y = AwaitSave r t \<Longrightarrow> isFresh env repos i r"
    and "AnalyzerStats.failed (stats st') + (if hasFailed (tasks st ! i) then 1 else 0)
           = AnalyzerStats.failed (stats st) + (if hasFailed y then 1 else 0)"
  shows "callsInv env repos s st'"
proof -
  from assms(1) have cs: "\<forall>k \<in> set (geminiCalls st).
        k < length (tasks st) \<and> wasClassified env repos k (tasks st ! k)"
    and aw: "\<forall>k < length (tasks st). \<forall>r t. tasks st ! k = AwaitSave r t \<longrightarrow> isFresh env repos k r"
    and fl: "AnalyzerStats.failed (stats st) = AnalyzerStats.failed s + length (filter hasFailed (tasks st))"
    by (simp_all add: callsInv_def)
  have 1: "\<forall>k \<in> set (geminiCalls st').
        k < length (tasks st') \<and> wasClassified env repos k (tasks st' ! k)"
  proof (cases "geminiCalls st' = geminiCalls st")
    case True
    with calls_update_same [OF cs assms(5)] assms(3) show ?thesis by simp
  next
    case False
    with assms(4) have "geminiCalls st' = geminiCalls st @ [i]" "wasClassified env repos i y"
      by simp_all
    with calls_update_new [OF cs assms(2), of y] assms(3) show ?thesis by simp
  qed
  have 2: "\<forall>k < length (tasks st'). \<forall>r t. tasks st' ! k = AwaitSave r t \<longrightarrow> isFresh env repos k r"
    using awaiting_update [OF aw assms(6)] assms(3) by simp
  have 3: "AnalyzerStats.failed (stats st') = AnalyzerStats.failed s + length (filter hasFailed (tasks st'))"
    using filter_update_count [OF assms(2), of hasFailed y] assms(3,7) fl by (simp split: if_splits)
  from 1 2 3 show ?thesis by (simp add: callsInv_def)
qed

lemma callsInv_step:
  assumes "callsInv env repos s st"
  shows "callsInv env repos s (step env skipCache repos st i)"
proof -
  from assms have cs: "\<forall>k \<in> set (geminiCalls st).
        k < length (tasks st) \<and> wasClassified env repos k (tasks st ! k)"
    and aw: "\<forall>k < length (tasks st). \<forall>r t. tasks st ! k = AwaitSave r t \<longrightarrow> isFresh env repos k r"
    by (simp_all add: callsInv_def)
  show ?thesis
  proof (cases rule: step_cases [of env skipCache repos st i])
    case idle
    with assms show ?thesis by simp
  next
    case toCache
    from not_called [OF cs] toCache(3) have n: "i \<notin> set (geminiCalls st)" by simp
    show ?thesis
      by (rule callsInv_update [OF assms toCache(2), of _ AwaitCache])
         (simp_all add: toCache(3,5) n)
  next
    case call
    then have h: "\<not> hasFailed (tasks st ! i)" by auto
    show ?thesis
      by (rule callsInv_update [OF assms call(2), of _ AwaitGemini])
         (simp_all add: call(4) callGemini_fields h)
  next
    case (hit c)
    from not_called [OF cs] hit(3) have n: "i \<notin> set (geminiCalls st)" by simp
    show ?thesis
      by (rule callsInv_update [OF assms hit(2), of _ "Resolved (c\<lparr>AnalysisResult.cached := True\<rparr>)"])
         (simp_all add: hit(3,5) cacheHit_fields n)
  next
    case (classified response)
    from classified(4) have f: "isFresh env repos i (freshRecord env i (repos ! i) response)"
      by (simp add: isFresh_def)
    show ?thesis
      by (rule callsInv_update [OF assms classified(2),
            of _ "AwaitSave (freshRecord env i (repos ! i) response) (GeminiResponse.tokensUsed response)"])
         (simp_all add: classified(3,5) classified_fields f)
  next
    case (failed err)
    let ?d = "degradedRecord env i (repos ! i) (getErrorMessage err)"
    have d: "\<not> AnalysisResult.cached ?d" "AnalysisResult.failed ?d = Some True"
      by (simp_all add: degradedRecord_def)
    from failed(4) have w: "isFailedClassification env repos i ?d"
      by (simp add: isFailedClassification_def)
    show ?thesis
      by (rule callsInv_update [OF assms failed(2), of _ "Resolved ?d"])
         (simp_all add: failed(3,5) catchBlock_fields d w)
  next
    case (saved result tokens)
    from aw saved(2,3) have fr: "isFresh env repos i result" by blast
    from isFresh_flags [OF fr] have h: "AnalysisResult.failed result = None" by simp
    show ?thesis
      by (rule callsInv_update [OF assms saved(2), of _ "Resolved result"])
         (simp_all add: saved(3,5) saved_fields fr h)
  next
    case (saveFailed result tokens)
    let ?d = "degradedRecord env i (repos ! i)
        (getErrorMessage (cacheWriteError (getAnalysisPath (full_name (AnalysisResult.repo result)))))"
    have d: "\<not> AnalysisResult.cached ?d" "AnalysisResult.failed ?d = Some True"
      by (simp_all add: degradedRecord_def)
    from aw saveFailed(2,3) have fr: "isFresh env repos i result" by blast
    then have rp: "AnalysisResult.repo result = repos ! i" by (rule isFresh_repo)
    from fr obtain response where "categorizeOutcome env i = Inr response"
      using isFresh_outcome by blast
    with saveFailed(4) rp have w: "isFailedClassification env repos i ?d"
      by (simp add: isFailedClassification_def)
    show ?thesis
      by (rule callsInv_update [OF assms saveFailed(2), of _ "Resolved ?d"])
         (simp_all add: saveFailed(3,5) catchBlock_fields d w)
  next
    case (push result)
    have w: "i \<in> set (geminiCalls st) \<Longrightarrow>
        isFresh env repos i result \<or> isFailedClassification env repos i result"
      using cs push(3) by fastforce
    show ?thesis
      by (rule callsInv_update [OF assms push(2), of _ "Finished result"])
         (simp_all add: push(3,4) w)
  next
    case hitOther
    let ?d = "degradedRecord env i (repos ! i) (getErrorMessage categoryTypeError)"
    have d: "\<not> AnalysisResult.cached ?d" "AnalysisResult.failed ?d = Some True"
      by (simp_all add: degradedRecord_def)
    from not_called [OF cs] hitOther(3) have n: "i \<notin> set (geminiCalls st)" by simp
    show ?thesis
      by (rule callsInv_update [OF assms hitOther(2), of _ "Resolved ?d"])
         (simp_all add: hitOther(3,5) cacheHit_other_fields d n)
  qed
qed

lemma callsInv_run: "callsInv env repos s (analyzeAll env repos skipCache schedule s fs0)"
  by (rule analyzeAll_invariant) (simp_all add: callsInv_start callsInv_step)

section \<open>Cache hits\<close>

lemma cacheInv_start: "cacheInv repos fs0 (startAnalyzeAll repos s fs0)"
  by (auto simp: cacheInv_def startAnalyzeAll_def tasksSatisfy_def
      split: option.splits cache_file.splits)

lemma served_unreadable:
  assumes "tasksSatisfy (taskServedFromCache repos fs0) ts" "i < length ts"
    and "ts ! i = AwaitGemini \<or> (\<exists>r t. ts ! i = AwaitSave r t)"
  shows "\<forall>r0. fs0 (getAnalysisPath (full_name (repos ! i))) \<noteq> Some (Stored r0)"
proof
  fix r0
  from tasksSatisfy_nth [OF assms(1,2)] assms(3)
  show "fs0 (getAnalysisPath (full_name (repos ! i))) \<noteq> Some (Stored r0)"
    by (auto split: option.splits cache_file.splits)
qed

lemma served_free:
  assumes "\<forall>r0. fs0 (getAnalysisPath (full_name (repos ! i))) \<noteq> Some (Stored r0)"
    and "\<And>r t. y = AwaitSave r t \<Longrightarrow> AnalysisResult.repo r = repos ! i"
  shows "taskServedFromCache repos fs0 i y"
  using assms by (auto split: option.splits cache_file.splits task.splits)

lemma cacheInv_step:
  assumes "cacheInv repos fs0 st" "\<not> skipCache"
  shows "cacheInv repos fs0 (step env skipCache repos st i)"
proof -
  from assms(1) have len: "length (tasks st) = length repos"
    and ts: "tasksSatisfy (taskServedFromCache repos fs0) (tasks st)"
    and fs: "\<forall>p r0. fs0 p = Some (Stored r0) \<longrightarrow> files st p = Some (Stored r0)"
    and gc: "\<forall>j \<in> set (geminiCalls st). j < length repos \<and>
        (\<forall>r0. fs0 (getAnalysisPath (full_name (repos ! j))) \<noteq> Some (Stored r0))"
    by (simp_all add: cacheInv_def)
  show ?thesis
  proof (cases rule: step_cases [of env skipCache repos st i])
    case idle
    with assms show ?thesis by simp
  next
    case toCache
    from tasksSatisfy_nth [OF ts toCache(2)] toCache(3)
    have "taskServedFromCache repos fs0 i AwaitCache"
      by (auto split: option.splits cache_file.splits)
    with toCache len ts fs gc show ?thesis
      by (simp add: cacheInv_def tasksSatisfy_update)
  next
    case call
    with assms(2) have ac: "tasks st ! i = AwaitCache"
      and miss: "getAnalysis (files st) (full_name (repos ! i)) = None" by auto
    have un: "\<forall>r0. fs0 (getAnalysisPath (full_name (repos ! i))) \<noteq> Some (Stored r0)"
    proof (intro allI notI)
      fix r0 assume "fs0 (getAnalysisPath (full_name (repos ! i))) = Some (Stored r0)"
      with fs have "files st (getAnalysisPath (full_name (repos ! i))) = Some (Stored r0)" by blast
      with miss show False by (simp add: getAnalysis_def)
    qed
    then have "taskServedFromCache repos fs0 i AwaitGemini" by (intro served_free) simp_all
    with call len ts fs gc un show ?thesis
      by (simp add: cacheInv_def callGemini_fields tasksSatisfy_update)
  next
    case (hit c)
    have "taskServedFromCache repos fs0 i (Resolved (c\<lparr>AnalysisResult.cached := True\<rparr>))"
    proof (cases "\<exists>r0. fs0 (getAnalysisPath (full_name (repos ! i))) = Some (Stored r0)")
      case True
      then obtain r0 where r0: "fs0 (getAnalysisPath (full_name (repos ! i))) = Some (Stored r0)"
        by blast
      with fs have "files st (getAnalysisPath (full_name (repos ! i))) = Some (Stored r0)" by blast
      with hit(4) have "c = r0" by simp
      with r0 show ?thesis by simp
    next
      case False
      then show ?thesis by (intro served_free) simp_all
    qed
    with hit len ts fs gc show ?thesis
      by (simp add: cacheInv_def cacheHit_fields tasksSatisfy_update)
  next
    case (classified response)
    from served_unreadable [OF ts classified(2)] classified(3)
    have un: "\<forall>r0. fs0 (getAnalysisPath (full_name (repos ! i))) \<noteq> Some (Stored r0)" by simp
    then have "taskServedFromCache repos fs0 i
        (AwaitSave (freshRecord env i (repos ! i) response) (GeminiResponse.tokensUsed response))"
      by (intro served_free) (auto simp: freshRecord_def)
    with classified len ts fs gc show ?thesis
      by (simp add: cacheInv_def classified_fields tasksSatisfy_update)
  next
    case (failed err)
    from served_unreadable [OF ts failed(2)] failed(3)
    have un: "\<forall>r0. fs0 (getAnalysisPath (full_name (repos ! i))) \<noteq> Some (Stored r0)" by simp
    then have "taskServedFromCache repos fs0 i
        (Resolved (degradedRecord env i (repos ! i) (getErrorMessage err)))"
      by (intro served_free) simp_all
    with failed len ts fs gc show ?thesis
      by (simp add: cacheInv_def catchBlock_fields tasksSatisfy_update)
  next
    case (saved result tokens)
    from served_unreadable [OF ts saved(2)] saved(3)
    have un: "\<forall>r0. fs0 (getAnalysisPath (full_name (repos ! i))) \<noteq> Some (Stored r0)" by simp
    from tasksSatisfy_nth [OF ts saved(2)] saved(3) un
    have rp: "AnalysisResult.repo result = repos ! i"
      by (auto split: option.splits cache_file.splits)
    from un have sv: "taskServedFromCache repos fs0 i (Resolved result)"
      by (intro served_free) simp_all
    have "\<forall>p r0. fs0 p = Some (Stored r0) \<longrightarrow>
        ((files st)(getAnalysisPath (full_name (AnalysisResult.repo result)) \<mapsto> Stored result)) p
          = Some (Stored r0)"
      using fs un rp by auto
    with saved len ts gc sv show ?thesis
      by (simp add: cacheInv_def saved_fields tasksSatisfy_update)
  next
    case (saveFailed result tokens)
    from served_unreadable [OF ts saveFailed(2)] saveFailed(3)
    have un: "\<forall>r0. fs0 (getAnalysisPath (full_name (repos ! i))) \<noteq> Some (Stored r0)" by simp
    then have "taskServedFromCache repos fs0 i (Resolved (degradedRecord env i (repos ! i)
        (getErrorMessage (cacheWriteError (getAnalysisPath (full_name (AnalysisResult.repo result)))))))"
      by (intro served_free) simp_all
    with saveFailed len ts fs gc show ?thesis
      by (simp add: cacheInv_def catchBlock_fields tasksSatisfy_update)
  next
    case (push result)
    from tasksSatisfy_nth [OF ts push(2)] push(3)
    have "taskServedFromCache repos fs0 i (Finished result)"
      by (auto split: option.splits cache_file.splits)
    with push len ts fs gc show ?thesis
      by (simp add: cacheInv_def tasksSatisfy_update)
  next
    case hitOther
    have un: "\<forall>r0. fs0 (getAnalysisPath (full_name (repos ! i))) \<noteq> Some (Stored r0)"
    proof (intro allI notI)
      fix r0 assume "fs0 (getAnalysisPath (full_name (repos ! i))) = Some (Stored r0)"
      with fs have "files st (getAnalysisPath (full_name (repos ! i))) = Some (Stored r0)" by blast
      with hitOther(4) show False by simp
    qed
    then have "taskServedFromCache repos fs0 i
        (Resolved (degradedRecord env i (repos ! i) (getErrorMessage categoryTypeError)))"
      by (intro served_free) simp_all
    with hitOther len ts fs gc show ?thesis
      by (simp add: cacheInv_def cacheHit_other_fields tasksSatisfy_update)
  qed
qed

lemma cacheInv_run:
  "cacheInv repos fs0 (analyzeAll env repos False schedule s fs0)"
  by (rule analyzeAll_invariant) (simp_all add: cacheInv_start cacheInv_step)

section \<open>Cache short-circuit\<close>

lemma provenance_finished:
  assumes "allFinished (analyzeAll env repos skipCache schedule s fs0)" "i < length repos"
  obtains r where "tasks (analyzeAll env repos skipCache schedule s fs0) ! i = Finished r"
    and "isFresh env repos i r \<or> isDegraded env repos fs0 i r \<or> isHit env repos fs0 i r"
    and "r \<in> set (results (analyzeAll env repos skipCache schedule s fs0))"
proof -
  let ?st = "analyzeAll env repos skipCache schedule s fs0"
  from assms(2) have i: "i < length (tasks ?st)" by (simp add: tasks_length)
  with assms(1) have "isFinished (tasks ?st ! i)" by (simp add: allFinished_def list_all_length)
  then obtain r where r: "tasks ?st ! i = Finished r" by (cases "tasks ?st ! i") simp_all
  have "tasksSatisfy (taskProvenance env repos fs0) (tasks ?st)"
    using provenanceInv_run [of env repos fs0 skipCache schedule s] by (simp add: provenanceInv_def)
  from tasksSatisfy_nth [OF this i] r
  have p: "isFresh env repos i r \<or> isDegraded env repos fs0 i r \<or> isHit env repos fs0 i r" by simp
  have "r \<in> set (results ?st)"
    using resultsInv_run [of env repos skipCache schedule s fs0] i r by (simp add: resultsInv_def)
  with r p show ?thesis by (rule that)
qed

text \<open>
  C6. With the cache in use, in every interleaving: an item whose key holds a stored
  record before the run finishes with that record, its cache flag set and everything
  else as stored, the record is in the result list, and the classifier is not called
  for the item. And \<open>getAnalysis\<close> returns a stored record with the cache flag set,
  whatever the stored flag was.
\<close>

theorem cache_hit_short_circuit:
  assumes "allFinished (analyzeAll env repos False schedule s fs0)"
    and "i < length repos"
    and "fs0 (getAnalysisPath (full_name (repos ! i))) = Some (Stored r0)"
  shows "tasks (analyzeAll env repos False schedule s fs0) ! i
           = Finished (r0\<lparr>AnalysisResult.cached := True\<rparr>)
       \<and> r0\<lparr>AnalysisResult.cached := True\<rparr> \<in> set (results (analyzeAll env repos False schedule s fs0))
       \<and> i \<notin> set (geminiCalls (analyzeAll env repos False schedule s fs0))
       \<and> (\<forall>fs nm r. getAnalysis fs nm = Some (CachedRecord r) \<longrightarrow>
             AnalysisResult.cached r \<and>
             (\<exists>stored. fs (getAnalysisPath nm) = Some (Stored stored) \<and>
                r = stored\<lparr>AnalysisResult.cached := True\<rparr>))"
proof -
  let ?st = "analyzeAll env repos False schedule s fs0"
  have inv: "cacheInv repos fs0 ?st" by (rule cacheInv_run)
  from assms(2) have i: "i < length (tasks ?st)" by (simp add: tasks_length)
  from assms(1) i have fin: "isFinished (tasks ?st ! i)" by (simp add: allFinished_def list_all_length)
  from inv have "tasksSatisfy (taskServedFromCache repos fs0) (tasks ?st)" by (simp add: cacheInv_def)
  from tasksSatisfy_nth [OF this i] assms(3) fin
  have t: "tasks ?st ! i = Finished (r0\<lparr>AnalysisResult.cached := True\<rparr>)" by auto
  have m: "r0\<lparr>AnalysisResult.cached := True\<rparr> \<in> set (results ?st)"
    using resultsInv_run [of env repos False schedule s fs0] i t by (simp add: resultsInv_def)
  from inv assms(3) have c: "i \<notin> set (geminiCalls ?st)" by (auto simp: cacheInv_def)
  have g: "\<forall>fs nm r. getAnalysis fs nm = Some (CachedRecord r) \<longrightarrow>
             AnalysisResult.cached r \<and>
             (\<exists>stored. fs (getAnalysisPath nm) = Some (Stored stored) \<and>
                r = stored\<lparr>AnalysisResult.cached := True\<rparr>)"
    unfolding getAnalysis_Some by auto
  from t m c g show ?thesis by blast
qed

theorem cache_hit_short_circuit_witness:
  "tasks cachedRun ! 0 = Finished (storedA\<lparr>AnalysisResult.cached := True\<rparr>)
   \<and> storedA\<lparr>AnalysisResult.cached := True\<rparr> \<in> set (results cachedRun)
   \<and> 0 \<notin> set (geminiCalls cachedRun)
   \<and> \<not> AnalysisResult.cached storedA"
proof -
  have f: "allFinished (analyzeAll envFails [repoA] False [0, 0, 0, 0, 0] initialStats cacheWithA)"
    by (rule analyzeAll_completes) simp
  have i: "0 < length [repoA]" by simp
  have e: "cacheWithA (getAnalysisPath (full_name ([repoA] ! 0))) = Some (Stored storedA)"
    by (simp add: cacheWithA_def repoA_def)
  have n: "\<not> AnalysisResult.cached storedA" by (simp add: storedA_def)
  from cache_hit_short_circuit [OF f i e] n show ?thesis
    unfolding cachedRun_def by blast
qed

section \<open>Failed items\<close>

lemma failed_task_record:
  assumes "allFinished (analyzeAll env repos skipCache schedule s fs0)"
    and "i < length repos"
    and "i \<in> set (geminiCalls (analyzeAll env repos skipCache schedule s fs0))"
    and "categorizeOutcome env i = Inl err"
  shows "tasks (analyzeAll env repos skipCache schedule s fs0) ! i
           = Finished (degradedRecord env i (repos ! i) (getErrorMessage err))
       \<and> degradedRecord env i (repos ! i) (getErrorMessage err)
           \<in> set (results (analyzeAll env repos skipCache schedule s fs0))
       \<and> hasFailed (tasks (analyzeAll env repos skipCache schedule s fs0) ! i)"
proof -
  let ?st = "analyzeAll env repos skipCache schedule s fs0"
  from provenance_finished [OF assms(1,2)] obtain r where r: "tasks ?st ! i = Finished r"
    and m: "r \<in> set (results ?st)" by blast
  have "wasClassified env repos i (tasks ?st ! i)"
    using callsInv_run [of env repos s skipCache schedule fs0] assms(3) by (simp add: callsInv_def)
  with r have "isFresh env repos i r \<or> isFailedClassification env repos i r" by simp
  moreover from assms(4) have "\<not> isFresh env repos i r" by (simp add: isFresh_def)
  ultimately have d: "isFailedClassification env repos i r" by blast
  with assms(4) have e: "r = degradedRecord env i (repos ! i) (getErrorMessage err)"
    by (simp add: isFailedClassification_def)
  from isFailedClassification_flags [OF d] r have "hasFailed (tasks ?st ! i)" by simp
  with r m e show ?thesis by simp
qed

lemma stored_record_is_fresh:
  "files (analyzeAll env repos skipCache schedule s fs0) p = fs0 p \<or>
     (\<exists>r. files (analyzeAll env repos skipCache schedule s fs0) p = Some (Stored r) \<and>
        AnalysisResult.failed r = None \<and> \<not> AnalysisResult.cached r \<and>
        (\<exists>j < length repos. p = getAnalysisPath (full_name (repos ! j)) \<and> isFresh env repos j r))"
proof -
  let ?st = "analyzeAll env repos skipCache schedule s fs0"
  have "filesProvenance env repos fs0 (files ?st)"
    using provenanceInv_run [of env repos fs0 skipCache schedule s] by (simp add: provenanceInv_def)
  then have "files ?st p = fs0 p \<or>
        (\<exists>j < length repos. p = getAnalysisPath (full_name (repos ! j)) \<and>
           (\<exists>r. files ?st p = Some (Stored r) \<and> isFresh env repos j r \<and> \<not> writeFails env j))"
    unfolding filesProvenance_def by blast
  then show ?thesis using isFresh_flags by blast
qed

lemma geminiCalls_step_mono:
  "set (geminiCalls st) \<subseteq> set (geminiCalls (step env skipCache repos st i))"
  by (cases rule: step_cases [of env skipCache repos st i])
     (auto simp: callGemini_fields cacheHit_fields cacheHit_other_fields classified_fields
        catchBlock_fields saved_fields)

lemma reattempt_keep:
  assumes "reattemptInv fs1 p k st"
    and "set (geminiCalls st) \<subseteq> set (geminiCalls st')"
    and "k \<notin> set (geminiCalls st) \<Longrightarrow>
           k \<in> set (geminiCalls st') \<or>
           (files st' p = files st p \<and> (tasks st' ! k = tasks st ! k \<or> tasks st' ! k = AwaitCache))"
  shows "reattemptInv fs1 p k st'"
proof (cases "k \<in> set (geminiCalls st)")
  case True
  with assms(2) show ?thesis by (auto simp: reattemptInv_def)
next
  case False
  with assms(1) have f: "files st p = fs1 p"
    and t: "tasks st ! k = Queued \<or> tasks st ! k = AwaitCache"
    by (simp_all add: reattemptInv_def)
  from assms(3) [OF False] show ?thesis unfolding reattemptInv_def using f t by metis
qed

lemma reattemptInv_step:
  assumes inv: "reattemptInv fs1 p k st"
    and ci: "callsInv env repos s st"
    and k: "k < length repos"
    and p: "p = getAnalysisPath (full_name (repos ! k))"
    and unique: "\<forall>j < length repos. getAnalysisPath (full_name (repos ! j)) = p \<longrightarrow> j = k"
    and miss: "fs1 p = None \<or> fs1 p = Some Unreadable"
  shows "reattemptInv fs1 p k (step env False repos st i)"
proof (rule reattempt_keep [OF inv geminiCalls_step_mono])
  assume n: "k \<notin> set (geminiCalls st)"
  with inv have f: "files st p = fs1 p" and t: "tasks st ! k = Queued \<or> tasks st ! k = AwaitCache"
    by (simp_all add: reattemptInv_def)
  from ci have aw: "\<forall>j < length (tasks st). \<forall>r t. tasks st ! j = AwaitSave r t \<longrightarrow> isFresh env repos j r"
    by (simp add: callsInv_def)
  let ?st' = "step env False repos st i"
  show "k \<in> set (geminiCalls ?st') \<or>
      (files ?st' p = files st p \<and> (tasks ?st' ! k = tasks st ! k \<or> tasks ?st' ! k = AwaitCache))"
  proof (cases rule: step_cases [of env False repos st i])
    case idle
    then show ?thesis by simp
  next
    case toCache
    then show ?thesis by (cases "i = k") simp_all
  next
    case call
    then show ?thesis by (cases "i = k") (simp_all add: callGemini_fields)
  next
    case (hit c)
    with f miss p have "i \<noteq> k" by auto
    with hit show ?thesis by (simp add: cacheHit_fields)
  next
    case (classified response)
    with t have "i \<noteq> k" by auto
    with classified show ?thesis by (simp add: classified_fields)
  next
    case (failed err)
    with t have "i \<noteq> k" by auto
    with failed show ?thesis by (simp add: catchBlock_fields)
  next
    case (saved result tokens)
    with t have ik: "i \<noteq> k" by auto
    from aw saved(2,3) have "isFresh env repos i result" by blast
    then have "AnalysisResult.repo result = repos ! i" by (rule isFresh_repo)
    with unique saved(1) ik have "getAnalysisPath (full_name (AnalysisResult.repo result)) \<noteq> p"
      by auto
    with saved ik show ?thesis by (simp add: saved_fields)
  next
    case (saveFailed result tokens)
    with t have "i \<noteq> k" by auto
    with saveFailed show ?thesis by (simp add: catchBlock_fields)
  next
    case (push result)
    with t have "i \<noteq> k" by auto
    with push show ?thesis by simp
  next
    case hitOther
    with f miss p have "i \<noteq> k" by auto
    with hitOther show ?thesis by (simp add: cacheHit_other_fields)
  qed
qed

lemma reattemptInv_run:
  assumes k: "k < length repos"
    and p: "p = getAnalysisPath (full_name (repos ! k))"
    and unique: "\<forall>j < length repos. getAnalysisPath (full_name (repos ! j)) = p \<longrightarrow> j = k"
    and miss: "fs1 p = None \<or> fs1 p = Some Unreadable"
  shows "reattemptInv fs1 p k (analyzeAll env repos False schedule s fs1)"
proof -
  have "reattemptInv fs1 p k (analyzeAll env repos False schedule s fs1)
      \<and> callsInv env repos s (analyzeAll env repos False schedule s fs1)"
  proof (rule analyzeAll_invariant)
    from k show "reattemptInv fs1 p k (startAnalyzeAll repos s fs1)
        \<and> callsInv env repos s (startAnalyzeAll repos s fs1)"
      by (simp add: reattemptInv_def startAnalyzeAll_def callsInv_start [unfolded startAnalyzeAll_def])
  next
    fix st i
    assume "reattemptInv fs1 p k st \<and> callsInv env repos s st"
    then show "reattemptInv fs1 p k (step env False repos st i)
        \<and> callsInv env repos s (step env False repos st i)"
      using reattemptInv_step [of fs1 p k st env repos s i, OF _ _ k p unique miss]
        callsInv_step [of env repos s st False i] by blast
  qed
  then show ?thesis by simp
qed

lemma reattempted:
  assumes "k < length repos"
    and "\<forall>j < length repos. getAnalysisPath (full_name (repos ! j))
            = getAnalysisPath (full_name (repos ! k)) \<longrightarrow> j = k"
    and "fs1 (getAnalysisPath (full_name (repos ! k))) = None
         \<or> fs1 (getAnalysisPath (full_name (repos ! k))) = Some Unreadable"
    and "allFinished (analyzeAll env repos False schedule s fs1)"
  shows "k \<in> set (geminiCalls (analyzeAll env repos False schedule s fs1))"
proof -
  let ?st = "analyzeAll env repos False schedule s fs1"
  from assms(1) have "k < length (tasks ?st)" by (simp add: tasks_length)
  with assms(4) have "isFinished (tasks ?st ! k)" by (simp add: allFinished_def list_all_length)
  then have "tasks ?st ! k \<noteq> Queued \<and> tasks ?st ! k \<noteq> AwaitCache" by auto
  with reattemptInv_run [of k repos "getAnalysisPath (full_name (repos ! k))" fs1 env schedule s,
      OF assms(1) refl assms(2,3)]
  show ?thesis by (simp add: reattemptInv_def)
qed

lemma file_kept_when_all_fail:
  assumes "\<forall>j < length repos. getAnalysisPath (full_name (repos ! j)) = p
            \<longrightarrow> (\<exists>err. categorizeOutcome env j = Inl err) \<or> writeFails env j"
  shows "files (analyzeAll env repos skipCache schedule s fs0) p = fs0 p"
proof -
  let ?st = "analyzeAll env repos skipCache schedule s fs0"
  have "filesProvenance env repos fs0 (files ?st)"
    using provenanceInv_run [of env repos fs0 skipCache schedule s] by (simp add: provenanceInv_def)
  then have "files ?st p = fs0 p \<or>
        (\<exists>j < length repos. p = getAnalysisPath (full_name (repos ! j)) \<and>
           (\<exists>r. files ?st p = Some (Stored r) \<and> isFresh env repos j r \<and> \<not> writeFails env j))"
    unfolding filesProvenance_def by blast
  then show ?thesis
  proof
    assume "files ?st p = fs0 p"
    then show ?thesis .
  next
    assume "\<exists>j < length repos. p = getAnalysisPath (full_name (repos ! j)) \<and>
           (\<exists>r. files ?st p = Some (Stored r) \<and> isFresh env repos j r \<and> \<not> writeFails env j)"
    then obtain j r where j: "j < length repos" "p = getAnalysisPath (full_name (repos ! j))"
      and fr: "isFresh env repos j r" and w: "\<not> writeFails env j" by blast
    from isFresh_outcome [OF fr] obtain response where "categorizeOutcome env j = Inr response"
      by blast
    with assms j w show ?thesis by auto
  qed
qed

lemma colliding_paths:
  "getAnalysisPath (js ''a-b/c'') = getAnalysisPath (js ''a/b-c'')"
  by (simp add: getAnalysisPath_def slugify_def isSlugSafe_def js_def)

text \<open>
  C5 (as the code has it). A failed classification stays with its item. In every
  interleaving: when every task gets its turns the run completes, whatever fails; a
  completed run returns one record per item; an item whose classifier call failed
  finishes with the degraded record (failed flag set) built from that error, and
  \<open>failed\<close> has grown by the number of items that finished with a degraded record. No
  degraded record reaches the cache: a file of the cache is as before the run, or holds
  the record of a successful classification of this run, whose failed flag is unset.
  And a later run with the cache in use calls the classifier for an item again, when no
  readable file was under the item's key before the earlier run, every item of the
  earlier run with that key failed (its classification or its cache write), and no
  other item of the later run has that key: the earlier run has left the file of the
  key as it was.
\<close>

theorem failure_is_local:
  "((\<forall>i < length repos. 5 \<le> count_list schedule i)
       \<longrightarrow> allFinished (analyzeAll env repos skipCache schedule s fs0))
   \<and> (allFinished (analyzeAll env repos skipCache schedule s fs0) \<longrightarrow>
        length (results (analyzeAll env repos skipCache schedule s fs0)) = length repos
        \<and> AnalyzerStats.failed (stats (analyzeAll env repos skipCache schedule s fs0))
            = AnalyzerStats.failed s
              + length (filter hasFailed (tasks (analyzeAll env repos skipCache schedule s fs0)))
        \<and> (\<forall>i err. i < length repos
              \<and> i \<in> set (geminiCalls (analyzeAll env repos skipCache schedule s fs0))
              \<and> categorizeOutcome env i = Inl err
            \<longrightarrow> tasks (analyzeAll env repos skipCache schedule s fs0) ! i
                  = Finished (degradedRecord env i (repos ! i) (getErrorMessage err))
                \<and> degradedRecord env i (repos ! i) (getErrorMessage err)
                    \<in> set (results (analyzeAll env repos skipCache schedule s fs0))
                \<and> hasFailed (tasks (analyzeAll env repos skipCache schedule s fs0) ! i)))
   \<and> (\<forall>p. files (analyzeAll env repos skipCache schedule s fs0) p = fs0 p \<or>
          (\<exists>r. files (analyzeAll env repos skipCache schedule s fs0) p = Some (Stored r) \<and>
             AnalysisResult.failed r = None \<and> \<not> AnalysisResult.cached r \<and>
             (\<exists>j < length repos. p = getAnalysisPath (full_name (repos ! j))
                \<and> isFresh env repos j r)))
   \<and> (\<forall>k. k < length repos'
          \<and> (fs0 (getAnalysisPath (full_name (repos' ! k))) = None
               \<or> fs0 (getAnalysisPath (full_name (repos' ! k))) = Some Unreadable)
          \<and> (\<forall>j < length repos.
                 getAnalysisPath (full_name (repos ! j)) = getAnalysisPath (full_name (repos' ! k))
                 \<longrightarrow> (\<exists>err. categorizeOutcome env j = Inl err) \<or> writeFails env j)
          \<and> (\<forall>j < length repos'.
                 getAnalysisPath (full_name (repos' ! j)) = getAnalysisPath (full_name (repos' ! k))
                 \<longrightarrow> j = k)
          \<and> allFinished (analyzeAll env' repos' False schedule' s'
                 (files (analyzeAll env repos skipCache schedule s fs0)))
        \<longrightarrow> files (analyzeAll env repos skipCache schedule s fs0)
                (getAnalysisPath (full_name (repos' ! k)))
              = fs0 (getAnalysisPath (full_name (repos' ! k)))
            \<and> k \<in> set (geminiCalls (analyzeAll env' repos' False schedule' s'
                 (files (analyzeAll env repos skipCache schedule s fs0)))))"
proof -
  let ?st = "analyzeAll env repos skipCache schedule s fs0"
  let ?st2 = "analyzeAll env' repos' False schedule' s' (files ?st)"
  have 1: "(\<forall>i < length repos. 5 \<le> count_list schedule i) \<longrightarrow> allFinished ?st"
    using analyzeAll_completes by blast
  have 2: "allFinished ?st \<longrightarrow> length (results ?st) = length repos"
  proof
    assume f: "allFinished ?st"
    then have "filter isFinished (tasks ?st) = tasks ?st"
      by (simp add: allFinished_def list_all_iff filter_id_conv)
    then show "length (results ?st) = length repos"
      using resultsInv_run [of env repos skipCache schedule s fs0]
      by (simp add: resultsInv_def tasks_length)
  qed
  have 3: "AnalyzerStats.failed (stats ?st)
      = AnalyzerStats.failed s + length (filter hasFailed (tasks ?st))"
    using callsInv_run [of env repos s skipCache schedule fs0] by (simp add: callsInv_def)
  have 4: "allFinished ?st \<longrightarrow> (\<forall>i err. i < length repos \<and> i \<in> set (geminiCalls ?st)
        \<and> categorizeOutcome env i = Inl err
      \<longrightarrow> tasks ?st ! i = Finished (degradedRecord env i (repos ! i) (getErrorMessage err))
        \<and> degradedRecord env i (repos ! i) (getErrorMessage err) \<in> set (results ?st)
        \<and> hasFailed (tasks ?st ! i))"
    using failed_task_record by blast
  have 5: "\<forall>p. files ?st p = fs0 p \<or>
          (\<exists>r. files ?st p = Some (Stored r) \<and>
             AnalysisResult.failed r = None \<and> \<not> AnalysisResult.cached r \<and>
             (\<exists>j < length repos. p = getAnalysisPath (full_name (repos ! j))
                \<and> isFresh env repos j r))"
    using stored_record_is_fresh by blast
  have 6: "\<forall>k. k < length repos'
          \<and> (fs0 (getAnalysisPath (full_name (repos' ! k))) = None
               \<or> fs0 (getAnalysisPath (full_name (repos' ! k))) = Some Unreadable)
          \<and> (\<forall>j < length repos.
                 getAnalysisPath (full_name (repos ! j)) = getAnalysisPath (full_name (repos' ! k))
                 \<longrightarrow> (\<exists>err. categorizeOutcome env j = Inl err) \<or> writeFails env j)
          \<and> (\<forall>j < length repos'.
                 getAnalysisPath (full_name (repos' ! j)) = getAnalysisPath (full_name (repos' ! k))
                 \<longrightarrow> j = k)
          \<and> allFinished ?st2
        \<longrightarrow> files ?st (getAnalysisPath (full_name (repos' ! k)))
              = fs0 (getAnalysisPath (full_name (repos' ! k)))
            \<and> k \<in> set (geminiCalls ?st2)"
  proof (intro allI impI)
    fix k
    let ?p = "getAnalysisPath (full_name (repos' ! k))"
    assume h: "k < length repos'
          \<and> (fs0 ?p = None \<or> fs0 ?p = Some Unreadable)
          \<and> (\<forall>j < length repos. getAnalysisPath (full_name (repos ! j)) = ?p
                 \<longrightarrow> (\<exists>err. categorizeOutcome env j = Inl err) \<or> writeFails env j)
          \<and> (\<forall>j < length repos'. getAnalysisPath (full_name (repos' ! j)) = ?p \<longrightarrow> j = k)
          \<and> allFinished ?st2"
    then have k: "k < length repos'"
      and miss: "fs0 ?p = None \<or> fs0 ?p = Some Unreadable"
      and fail: "\<forall>j < length repos. getAnalysisPath (full_name (repos ! j)) = ?p
                 \<longrightarrow> (\<exists>err. categorizeOutcome env j = Inl err) \<or> writeFails env j"
      and unique: "\<forall>j < length repos'. getAnalysisPath (full_name (repos' ! j)) = ?p \<longrightarrow> j = k"
      and fin: "allFinished ?st2"
      by simp_all
    from fail have kept: "files ?st ?p = fs0 ?p" by (rule file_kept_when_all_fail)
    with miss have "files ?st ?p = None \<or> files ?st ?p = Some Unreadable" by simp
    from reattempted [OF k unique this fin] kept
    show "files ?st ?p = fs0 ?p \<and> k \<in> set (geminiCalls ?st2)" by simp
  qed
  from 1 2 3 4 5 6 show ?thesis by blast
qed

lemma failingRun_calls: "geminiCalls failingRun = [0]"
  by (simp add: failingRun_def analyzeAll_def startAnalyzeAll_def step_def initialStats_def
        envFails_def getAnalysis_def callGemini_def catchBlock_def onProgress_def Let_def)

lemma failingRun_files: "files failingRun = Map.empty"
  by (simp add: failingRun_def analyzeAll_def startAnalyzeAll_def step_def initialStats_def
        envFails_def getAnalysis_def callGemini_def catchBlock_def onProgress_def Let_def)

theorem failure_is_local_witness:
  "allFinished failingRun
   \<and> length (results failingRun) = 1
   \<and> AnalyzerStats.failed (stats failingRun) = 1
   \<and> degradedRecord envFails 0 repoA (js ''Gemini API error: invalid request'')
       \<in> set (results failingRun)
   \<and> files failingRun = Map.empty
   \<and> allFinished failingRerun
   \<and> 0 \<in> set (geminiCalls failingRerun)"
proof -
  note t = failure_is_local [where repos = "[repoA]" and schedule = "[0, 0, 0, 0, 0]"
      and env = envFails and skipCache = False and s = initialStats and ?fs0.0 = Map.empty
      and repos' = "[repoA]" and env' = envOk and schedule' = "[0, 0, 0, 0, 0]"
      and s' = "stats failingRun"]
  have fair: "\<forall>i < length [repoA]. 5 \<le> count_list [0, 0, 0, 0, 0] i" by simp
  with t have f: "allFinished failingRun" unfolding failingRun_def by blast
  have c: "0 < length [repoA] \<and> 0 \<in> set (geminiCalls failingRun)
      \<and> categorizeOutcome envFails 0 = Inl wrappedInvalidRequest"
    by (simp add: failingRun_calls envFails_def)
  have msg: "getErrorMessage wrappedInvalidRequest = js ''Gemini API error: invalid request''"
    by (simp add: wrappedInvalidRequest_def)
  from t f have l: "length (results failingRun) = 1" unfolding failingRun_def by simp
  from t f c have d: "tasks failingRun ! 0
        = Finished (degradedRecord envFails 0 ([repoA] ! 0) (getErrorMessage wrappedInvalidRequest))
      \<and> degradedRecord envFails 0 ([repoA] ! 0) (getErrorMessage wrappedInvalidRequest)
          \<in> set (results failingRun)"
    unfolding failingRun_def by blast
  have len: "length (tasks failingRun) = 1" unfolding failingRun_def by (simp add: tasks_length)
  then obtain x where x: "tasks failingRun = [x]" by (cases "tasks failingRun") auto
  with d have "hasFailed x" by (simp add: degradedRecord_def)
  with x have "length (filter hasFailed (tasks failingRun)) = 1" by simp
  moreover from t f have "AnalyzerStats.failed (stats failingRun)
      = AnalyzerStats.failed initialStats + length (filter hasFailed (tasks failingRun))"
    unfolding failingRun_def by blast
  ultimately have n: "AnalyzerStats.failed (stats failingRun) = 1" by (simp add: initialStats_def)
  have f2: "allFinished failingRerun"
    unfolding failingRerun_def by (rule analyzeAll_completes) simp
  note again = t [THEN conjunct2, THEN conjunct2, THEN conjunct2, THEN spec, of 0,
      folded failingRun_def, folded failingRerun_def]
  have "0 < length [repoA]
      \<and> (Map.empty (getAnalysisPath (full_name ([repoA] ! 0))) = None
           \<or> Map.empty (getAnalysisPath (full_name ([repoA] ! 0))) = Some Unreadable)
      \<and> (\<forall>j < length [repoA].
             getAnalysisPath (full_name ([repoA] ! j)) = getAnalysisPath (full_name ([repoA] ! 0))
             \<longrightarrow> (\<exists>err. categorizeOutcome envFails j = Inl err) \<or> writeFails envFails j)
      \<and> (\<forall>j < length [repoA].
             getAnalysisPath (full_name ([repoA] ! j)) = getAnalysisPath (full_name ([repoA] ! 0))
             \<longrightarrow> j = 0)
      \<and> allFinished failingRerun"
    using f2 by (simp add: envFails_def)
  with again have r: "0 \<in> set (geminiCalls failingRerun)" by blast
  from f l n d msg failingRun_files f2 r show ?thesis by simp
qed

lemma collidingRun_state:
  "tasks collidingRun =
     [Finished (degradedRecord envFirstFails 0 repoC1 (js ''Gemini API error: invalid request'')),
      Finished (freshRecord envFirstFails 1 repoC2 okResponse)]
   \<and> files collidingRun =
       Map.empty(getAnalysisPath (js ''a/b-c'') \<mapsto> Stored (freshRecord envFirstFails 1 repoC2 okResponse))
   \<and> geminiCalls collidingRun = [0, 1]"
proof -
  have n: "full_name repoC1 = js ''a-b/c''" "full_name repoC2 = js ''a/b-c''"
    by (simp_all add: repoC1_def repoC2_def)
  have o: "categorizeOutcome envFirstFails 0 = Inl wrappedInvalidRequest"
    "categorizeOutcome envFirstFails (Suc 0) = Inr okResponse"
    "\<not> writeFails envFirstFails (Suc 0)"
    by (simp_all add: envFirstFails_def)
  have r: "\<And>env i rp response. AnalysisResult.repo (freshRecord env i rp response) = rp"
    by (simp add: freshRecord_def)
  have m: "getErrorMessage wrappedInvalidRequest = js ''Gemini API error: invalid request''"
    by (simp add: wrappedInvalidRequest_def)
  show ?thesis
    unfolding collidingRun_def
    by (simp add: analyzeAll_def startAnalyzeAll_def step_def getAnalysis_def saveAnalysis_def
        callGemini_def classified_def saved_def catchBlock_def onProgress_def Let_def
        n o r m colliding_paths)
qed

lemma collidingRerun_state:
  "tasks collidingRerun =
     [Finished ((freshRecord envFirstFails 1 repoC2 okResponse)\<lparr>AnalysisResult.cached := True\<rparr>),
      Finished ((freshRecord envFirstFails 1 repoC2 okResponse)\<lparr>AnalysisResult.cached := True\<rparr>)]
   \<and> geminiCalls collidingRerun = []"
proof -
  have n: "full_name repoC1 = js ''a-b/c''" "full_name repoC2 = js ''a/b-c''"
    by (simp_all add: repoC1_def repoC2_def)
  have f: "files collidingRun =
       Map.empty(getAnalysisPath (js ''a/b-c'') \<mapsto> Stored (freshRecord envFirstFails 1 repoC2 okResponse))"
    using collidingRun_state by simp
  show ?thesis
    unfolding collidingRerun_def f
    by (simp add: analyzeAll_def startAnalyzeAll_def step_def getAnalysis_def
        cacheHit_def onProgress_def Let_def n colliding_paths)
qed

text \<open>
  C5 (as stated) fails in its last part. Two items with different names and the same
  key, on an empty cache: the classification of the first fails, and it returns with
  the degraded record; the second is classified and its record is stored under the
  shared key. In the next run of the same batch the classifier is called for neither:
  the item that failed is served from the cache, with the record of the other item.
\<close>

theorem failed_item_not_reattempted:
  "full_name repoC1 \<noteq> full_name repoC2
   \<and> categorizeOutcome envFirstFails 0 = Inl wrappedInvalidRequest
   \<and> allFinished collidingRun
   \<and> tasks collidingRun ! 0
       = Finished (degradedRecord envFirstFails 0 repoC1 (js ''Gemini API error: invalid request''))
   \<and> geminiCalls collidingRun = [0, 1]
   \<and> allFinished collidingRerun
   \<and> geminiCalls collidingRerun = []
   \<and> tasks collidingRerun ! 0
       = Finished ((freshRecord envFirstFails 1 repoC2 okResponse)\<lparr>AnalysisResult.cached := True\<rparr>)"
proof -
  have a: "full_name repoC1 \<noteq> full_name repoC2"
    by (simp add: repoC1_def repoC2_def js_def)
  have b: "categorizeOutcome envFirstFails 0 = Inl wrappedInvalidRequest"
    by (simp add: envFirstFails_def)
  have c: "allFinished collidingRun" "allFinished collidingRerun"
    using collidingRun_state collidingRerun_state by (simp_all add: allFinished_def)
  from a b c collidingRun_state collidingRerun_state show ?thesis by simp
qed

section \<open>Categories of the returned records\<close>

lemma pRetry_success:
  "pRetry input hook errors k n = (a, Inr v) \<Longrightarrow> \<exists>j. input j = Inr v"
proof (induction n arbitrary: k errors)
  case 0
  then show ?case by (auto split: sum.splits option.splits)
next
  case (Suc n)
  show ?case
  proof (cases "input k")
    case (Inr w)
    with Suc.prems show ?thesis by auto
  next
    case (Inl e)
    show ?thesis
    proof (cases "hook e")
      case None
      with Inl Suc.prems have "pRetry input hook (errors @ [e]) (Suc k) n = (a, Inr v)" by simp
      then show ?thesis by (rule Suc.IH)
    next
      case (Some t)
      with Inl Suc.prems show ?thesis by simp
    qed
  qed
qed

lemma attempt_success:
  assumes "attempt JSON_parse outcome = Inr response"
  shows "CategorizationResult.category (GeminiResponse.categorization response) \<in> set CATEGORY_NAMES"
proof -
  from assms have b: "attemptBody JSON_parse outcome = Inr response"
    by (auto simp: attempt_def split: sum.splits)
  then obtain t c where "parseResponse JSON_parse t = Inr c"
    and "GeminiResponse.categorization response = c"
    by (auto simp: attemptBody_def split: sum.splits)
  then show ?thesis using parseResponse_category_in_taxonomy by blast
qed

lemma categorize_success:
  assumes "snd (categorize cfg JSON_parse generateContent) = Inr response"
  shows "CategorizationResult.category (GeminiResponse.categorization response) \<in> set CATEGORY_NAMES"
proof -
  from assms obtain a where
    "pRetry (\<lambda>k. attempt JSON_parse (generateContent k)) onFailedAttempt [] 1 (RETRY_MAX_ATTEMPTS cfg)
       = (a, Inr response)"
    by (cases "categorize cfg JSON_parse generateContent") (simp add: categorize_def)
  from pRetry_success [OF this] obtain j where "attempt JSON_parse (generateContent j) = Inr response"
    by blast
  then show ?thesis by (rule attempt_success)
qed

lemma uncategorized_outside_taxonomy: "js ''Uncategorized'' \<notin> set CATEGORY_NAMES"
  by (simp add: CATEGORY_NAMES_def CATEGORIES_def js_def)

lemma geminiEnv_fresh:
  assumes "isFresh (geminiEnv cfg JSON_parse generateContent failing clk el) repos i r"
  shows "CategorizationResult.category (AnalysisResult.categorization r) \<in> set CATEGORY_NAMES"
proof -
  from assms obtain response where
    o: "snd (categorize cfg JSON_parse (generateContent i)) = Inr response"
    and r: "r = freshRecord (geminiEnv cfg JSON_parse generateContent failing clk el) i (repos ! i) response"
    by (auto simp: isFresh_def geminiEnv_def split: sum.splits)
  from categorize_success [OF o] r show ?thesis by (simp add: freshRecord_def)
qed

text \<open>
  C1 (as the code has it). On the real classifier client, every record that
  \<open>analyzeAll\<close> returns is of one of three kinds. A fresh record (not from the cache,
  not failed) has a category of the taxonomy. The record of a failed item has the
  category \<open>Uncategorized\<close>, which is no name of the taxonomy. A record served from the
  cache has the category it was stored with: a name of the taxonomy when the record was
  written by this run, and whatever the cache held before the run otherwise.
\<close>

theorem record_categories:
  assumes "r \<in> set (results (analyzeAll (geminiEnv cfg JSON_parse generateContent failing clk el)
                              repos skipCache schedule s fs0))"
  shows "((\<not> AnalysisResult.cached r \<and> AnalysisResult.failed r = None \<and>
           CategorizationResult.category (AnalysisResult.categorization r) \<in> set CATEGORY_NAMES)
        \<or> (\<not> AnalysisResult.cached r \<and> AnalysisResult.failed r = Some True \<and>
           CategorizationResult.category (AnalysisResult.categorization r) = js ''Uncategorized'')
        \<or> (AnalysisResult.cached r \<and>
           (CategorizationResult.category (AnalysisResult.categorization r) \<in> set CATEGORY_NAMES \<or>
            (\<exists>p r0. fs0 p = Some (Stored r0) \<and> r = r0\<lparr>AnalysisResult.cached := True\<rparr>))))
       \<and> js ''Uncategorized'' \<notin> set CATEGORY_NAMES"
proof -
  let ?env = "geminiEnv cfg JSON_parse generateContent failing clk el"
  let ?st = "analyzeAll ?env repos skipCache schedule s fs0"
  from assms resultsInv_run [of ?env repos skipCache schedule s fs0]
  obtain i where i: "i < length (tasks ?st)" and t: "tasks ?st ! i = Finished r"
    unfolding resultsInv_def by blast
  have "tasksSatisfy (taskProvenance ?env repos fs0) (tasks ?st)"
    using provenanceInv_run [of ?env repos fs0 skipCache schedule s] by (simp add: provenanceInv_def)
  from tasksSatisfy_nth [OF this i] t
  consider (fresh) "isFresh ?env repos i r" | (degraded) "isDegraded ?env repos fs0 i r"
    | (hit) "isHit ?env repos fs0 i r" by auto
  then have "(\<not> AnalysisResult.cached r \<and> AnalysisResult.failed r = None \<and>
           CategorizationResult.category (AnalysisResult.categorization r) \<in> set CATEGORY_NAMES)
        \<or> (\<not> AnalysisResult.cached r \<and> AnalysisResult.failed r = Some True \<and>
           CategorizationResult.category (AnalysisResult.categorization r) = js ''Uncategorized'')
        \<or> (AnalysisResult.cached r \<and>
           (CategorizationResult.category (AnalysisResult.categorization r) \<in> set CATEGORY_NAMES \<or>
            (\<exists>p r0. fs0 p = Some (Stored r0) \<and> r = r0\<lparr>AnalysisResult.cached := True\<rparr>)))"
  proof cases
    case fresh
    with isFresh_flags [OF fresh] geminiEnv_fresh [OF fresh] show ?thesis by blast
  next
    case degraded
    with isDegraded_flags [OF degraded] show ?thesis by blast
  next
    case hit
    then obtain r0 where r0: "r = r0\<lparr>AnalysisResult.cached := True\<rparr>"
      and src: "fs0 (getAnalysisPath (full_name (repos ! i))) = Some (Stored r0) \<or>
         (\<exists>j < length repos. isFresh ?env repos j r0)"
      unfolding isHit_def by blast
    from src show ?thesis
    proof
      assume "fs0 (getAnalysisPath (full_name (repos ! i))) = Some (Stored r0)"
      with r0 show ?thesis by auto
    next
      assume "\<exists>j < length repos. isFresh ?env repos j r0"
      then obtain j where "isFresh ?env repos j r0" by blast
      from geminiEnv_fresh [OF this] r0 show ?thesis by simp
    qed
  qed
  with uncategorized_outside_taxonomy show ?thesis by blast
qed

lemma parseFrontend_result:
  "parseResponse parseFrontend (js ''{}'') =
     Inr \<lparr>CategorizationResult.category = js ''Frontend Frameworks'', confidence = 95,
          reasoning = js ''x''\<rparr>"
proof -
  have f: "parseFrontend (js ''{}'') = Inr \<lparr>categoryField = JString emojiFrontend,
          confidenceField = 95, reasoningField = js ''x''\<rparr>"
    by (simp add: parseFrontend_def)
  have c: "categoryField \<lparr>categoryField = JString emojiFrontend,
          confidenceField = 95, reasoningField = js ''x''\<rparr> = JString emojiFrontend" by simp
  have ne: "trim emojiFrontend \<noteq> []" by (simp add: trim_frontend)
  have "find (categoryMatches emojiFrontendTrimmed) CATEGORIES = Some (CATEGORIES ! 2)"
    using find_first_match [of "take 2 CATEGORIES" "categoryMatches emojiFrontendTrimmed"
        "CATEGORIES ! 2" "drop 3 CATEGORIES"] frontend_split by simp
  with parseResponse_valid [where JSON_parse = parseFrontend, OF matchJson_braces f c ne]
  show ?thesis by (simp add: trim_frontend frontend_split(2))
qed

lemma categorize_endpointUp:
  "categorize defaultConfig parseFrontend (endpointUp i) =
     (1, Inr \<lparr>GeminiResponse.categorization =
               \<lparr>CategorizationResult.category = js ''Frontend Frameworks'', confidence = 95,
                reasoning = js ''x''\<rparr>,
             groundingChunks = 0, tokensUsed = 10\<rparr>)"
proof -
  have five: "RETRY_MAX_ATTEMPTS defaultConfig = Suc (Suc (Suc (Suc (Suc 0))))"
    by (simp add: defaultConfig_def)
  have ne: "js ''{}'' \<noteq> []" by (simp add: js_def)
  show ?thesis
    unfolding categorize_def five
    by (simp add: attempt_def attemptBody_def endpointUp_def ne parseFrontend_result)
qed

lemma geminiDown_env:
  "geminiEnv defaultConfig parseBlank endpointDown noWriteFailure clock fiveMs =
     \<lparr>categorizeOutcome = (\<lambda>i. Inl wrappedInvalidRequest), writeFails = noWriteFailure,
      isoTime = clock, elapsed = fiveMs\<rparr>"
  by (simp add: geminiEnv_def endpointDown_always categorize_invalidRequest)

lemma geminiUp_env:
  "geminiEnv defaultConfig parseFrontend endpointUp noWriteFailure clock fiveMs =
     \<lparr>categorizeOutcome = (\<lambda>i. Inr \<lparr>GeminiResponse.categorization =
               \<lparr>CategorizationResult.category = js ''Frontend Frameworks'', confidence = 95,
                reasoning = js ''x''\<rparr>,
             groundingChunks = 0, tokensUsed = 10\<rparr>), writeFails = noWriteFailure,
      isoTime = clock, elapsed = fiveMs\<rparr>"
  by (simp add: geminiEnv_def categorize_endpointUp)

lemma geminiDownRun_results:
  "results geminiDownRun =
     [\<lparr>AnalysisResult.repo = repoA,
       categorization = \<lparr>CategorizationResult.category = js ''Uncategorized'',
                         CategorizationResult.confidence = 0,
                         reasoning = js ''Analysis failed: '' @ js ''Gemini API error: invalid request''\<rparr>,
       webSearchCalls = 0, cached = False, timestamp = clock 0, failed = Some True,
       error = Some (js ''Gemini API error: invalid request'')\<rparr>]"
  unfolding geminiDownRun_def geminiDown_env
  by (simp add: analyzeAll_def startAnalyzeAll_def step_def initialStats_def
        getAnalysis_def callGemini_def catchBlock_def onProgress_def Let_def degradedRecord_def
        wrappedInvalidRequest_def)

lemma geminiUpRun_results:
  "results geminiUpRun =
     [\<lparr>AnalysisResult.repo = repoA,
       categorization = \<lparr>CategorizationResult.category = js ''Frontend Frameworks'',
                         CategorizationResult.confidence = 95, reasoning = js ''x''\<rparr>,
       webSearchCalls = 0, cached = False, timestamp = clock 0, failed = None, error = None\<rparr>]"
  unfolding geminiUpRun_def geminiUp_env
  by (simp add: analyzeAll_def startAnalyzeAll_def step_def initialStats_def
        getAnalysis_def saveAnalysis_def callGemini_def classified_def saved_def onProgress_def
        Let_def freshRecord_def noWriteFailure_def)

theorem record_categories_witness:
  "map (CategorizationResult.category \<circ> AnalysisResult.categorization) (results geminiUpRun)
     = [js ''Frontend Frameworks'']
   \<and> js ''Frontend Frameworks'' \<in> set CATEGORY_NAMES"
proof -
  let ?r = "\<lparr>AnalysisResult.repo = repoA,
       categorization = \<lparr>CategorizationResult.category = js ''Frontend Frameworks'',
                         CategorizationResult.confidence = 95, reasoning = js ''x''\<rparr>,
       webSearchCalls = 0, cached = False, timestamp = clock 0, failed = None, error = None\<rparr>"
  have "?r \<in> set (results (analyzeAll
      (geminiEnv defaultConfig parseFrontend endpointUp noWriteFailure clock fiveMs)
      [repoA] False [0, 0, 0, 0, 0] initialStats Map.empty))"
    using geminiUpRun_results unfolding geminiUpRun_def by simp
  from record_categories [OF this]
  have "js ''Frontend Frameworks'' \<in> set CATEGORY_NAMES" by simp
  with geminiUpRun_results show ?thesis by simp
qed

text \<open>
  C1 (as stated) fails: when the endpoint is down, the item's record has the category
  \<open>Uncategorized\<close>, which is not in the taxonomy.
\<close>

theorem failed_record_outside_taxonomy:
  "map (CategorizationResult.category \<circ> AnalysisResult.categorization) (results geminiDownRun)
     = [js ''Uncategorized'']
   \<and> js ''Uncategorized'' \<notin> set CATEGORY_NAMES"
  using geminiDownRun_results uncategorized_outside_taxonomy by simp

end
